theory Spec2Isabelle
  imports Complex_Main "HOL-Library.Word" "HOL-Library.Log_Nat" "HOL-Library.Multiset"
    "HOL-Library.List_Lexorder"
begin

section \<open>Characters and C strings\<close>

text \<open>
  A C string is modelled by the list of its bytes before the terminating NUL. Reading
  the byte under a pointer (\<open>*a\<close>) is \<open>peek\<close>: the head of the list, or NUL when
  the list is exhausted. The program never calls \<open>setlocale\<close>, so \<open>tolower\<close> and
  \<open>isspace\<close> are those of the "C" locale.
\<close>

definition peek :: "string \<Rightarrow> char" where
  "peek s = (case s of [] \<Rightarrow> CHR 0x00 | c # _ \<Rightarrow> c)"

definition uchar :: "char \<Rightarrow> nat" where
  "uchar c = of_char c"

definition tolower :: "char \<Rightarrow> char" where
  "tolower c = (if 65 \<le> uchar c \<and> uchar c \<le> 90 then char_of (uchar c + 32) else c)"

definition isspace :: "char \<Rightarrow> bool" where
  "isspace c = (uchar c = 32 \<or> (9 \<le> uchar c \<and> uchar c \<le> 13))"

definition isdigit :: "char \<Rightarrow> bool" where
  "isdigit c = (48 \<le> uchar c \<and> uchar c \<le> 57)"

text \<open>The bytes of a buffer up to its first NUL: what a \<open>char *\<close> argument denotes.\<close>

definition cstr :: "string \<Rightarrow> string" where
  "cstr s = takeWhile (\<lambda>c. c \<noteq> CHR 0x00) s"

text \<open>
  \<open>caseInsensitiveCompare\<close> (source lines 203-215): the loop compares the lower-cased
  bytes under both pointers and advances both while they are equal and not NUL.
\<close>

function caseInsensitiveCompare :: "string \<Rightarrow> string \<Rightarrow> int" where
  "caseInsensitiveCompare a b =
     (let ca = uchar (tolower (peek a));
          cb = uchar (tolower (peek b))
      in if ca < cb then - 1
         else if ca > cb then 1
         else if ca = 0 then 0
         else caseInsensitiveCompare (tl a) (tl b))"
  by pat_completeness auto
termination
proof (relation "measure (\<lambda>(a, b). length a)")
  show "wf (measure (\<lambda>(a, b). length a))" by simp
next
  fix a b :: string and x xa :: nat
  assume "x = uchar (tolower (peek a))" and "\<not> x = 0"
  then have "a \<noteq> []"
    by (auto simp: peek_def uchar_def tolower_def)
  then show "((tl a, tl b), (a, b)) \<in> measure (\<lambda>(a, b). length a)"
    by (cases a) auto
qed

declare caseInsensitiveCompare.simps [simp del]

section \<open>IEEE 754 binary64 values\<close>

text \<open>
  The C type \<open>double\<close> is taken to be IEEE 754 binary64 with round-to-nearest,
  ties-to-even. A finite value is a sign and a rational magnitude (so that \<open>-0.0\<close>
  is \<open>Finite True 0\<close>); the magnitudes that occur are those that \<open>round_mag\<close>
  leaves unchanged.
\<close>

datatype double = Finite bool rat | Infinity bool | NaN

definition round_half_even :: "rat \<Rightarrow> int" where
  "round_half_even x =
     (let f = \<lfloor>x\<rfloor>; d = x - of_int f
      in if d < 1 / 2 then f else if 1 / 2 < d then f + 1 else if even f then f else f + 1)"

text \<open>The exponent \<open>e\<close> with \<open>2^e \<le> a < 2^(e+1)\<close>, for \<open>a > 0\<close>.\<close>

definition floor_log2 :: "rat \<Rightarrow> int" where
  "floor_log2 a =
     (if 1 \<le> a then int (floorlog 2 (nat \<lfloor>a\<rfloor>)) - 1
      else - int (floorlog 2 (nat \<lceil>1 / a\<rceil> - 1)))"

text \<open>
  Rounding a magnitude to 53 significant bits; below \<open>2^-1022\<close> the spacing stays
  \<open>2^-1074\<close> (subnormals).
\<close>

definition round_mag :: "rat \<Rightarrow> rat" where
  "round_mag m =
     (if m = 0 then 0
      else let e = max (floor_log2 m) (- 1022);
               q = 2 powi (e - 52)
           in of_int (round_half_even (m / q)) * q)"

definition round_double :: "bool \<Rightarrow> rat \<Rightarrow> double" where
  "round_double s m =
     (let v = round_mag m in if 2 ^ 1024 \<le> v then Infinity s else Finite s v)"

definition double_of_rat :: "rat \<Rightarrow> double" where
  "double_of_rat r = round_double (r < 0) \<bar>r\<bar>"

definition signed_val :: "bool \<Rightarrow> rat \<Rightarrow> rat" where
  "signed_val s m = (if s then - m else m)"

definition is_double :: "double \<Rightarrow> bool" where
  "is_double d =
     (case d of Finite s m \<Rightarrow> 0 \<le> m \<and> m < 2 ^ 1024 \<and> round_mag m = m | _ \<Rightarrow> True)"

fun dneg :: "double \<Rightarrow> double" where
  "dneg (Finite s m) = Finite (\<not> s) m"
| "dneg (Infinity s) = Infinity (\<not> s)"
| "dneg NaN = NaN"

fun dadd :: "double \<Rightarrow> double \<Rightarrow> double" where
  "dadd NaN y = NaN"
| "dadd x NaN = NaN"
| "dadd (Infinity s) (Infinity t) = (if s = t then Infinity s else NaN)"
| "dadd (Infinity s) (Finite t n) = Infinity s"
| "dadd (Finite s m) (Infinity t) = Infinity t"
| "dadd (Finite s m) (Finite t n) =
     (let r = signed_val s m + signed_val t n
      in if r = 0 then Finite (s \<and> t) 0 else double_of_rat r)"

definition dsub :: "double \<Rightarrow> double \<Rightarrow> double" where
  "dsub x y = dadd x (dneg y)"

fun dmul :: "double \<Rightarrow> double \<Rightarrow> double" where
  "dmul NaN y = NaN"
| "dmul x NaN = NaN"
| "dmul (Infinity s) (Infinity t) = Infinity (s \<noteq> t)"
| "dmul (Infinity s) (Finite t n) = (if n = 0 then NaN else Infinity (s \<noteq> t))"
| "dmul (Finite s m) (Infinity t) = (if m = 0 then NaN else Infinity (s \<noteq> t))"
| "dmul (Finite s m) (Finite t n) = round_double (s \<noteq> t) (m * n)"

text \<open>\<open>x < y\<close> on doubles: false when either side is NaN; the two zeros are equal.\<close>

fun dlt :: "double \<Rightarrow> double \<Rightarrow> bool" where
  "dlt NaN y = False"
| "dlt x NaN = False"
| "dlt (Infinity s) (Infinity t) = (s \<and> \<not> t)"
| "dlt (Infinity s) (Finite t n) = s"
| "dlt (Finite s m) (Infinity t) = (\<not> t)"
| "dlt (Finite s m) (Finite t n) = (signed_val s m < signed_val t n)"

definition dgt :: "double \<Rightarrow> double \<Rightarrow> bool" where
  "dgt x y = dlt y x"

definition dle :: "double \<Rightarrow> double \<Rightarrow> bool" where
  "dle x y = (x \<noteq> NaN \<and> y \<noteq> NaN \<and> \<not> dlt y x)"

text \<open>Conversion of a 32-bit \<open>int\<close> to \<open>double\<close> is exact.\<close>

definition double_of_int :: "32 word \<Rightarrow> double" where
  "double_of_int w = Finite (sint w < 0) \<bar>of_int (sint w)\<bar>"

definition dzero :: double where
  "dzero = Finite False 0"

section \<open>Constants and types of the program\<close>

definition MAX_BOATS :: nat where "MAX_BOATS = 120"
definition MAX_NAME :: nat where "MAX_NAME = 128"
definition MONTH_SLIP :: double where "MONTH_SLIP = double_of_rat (25 / 2)"
definition MONTH_LAND :: double where "MONTH_LAND = double_of_rat 14"
definition MONTH_TRAILOR :: double where "MONTH_TRAILOR = double_of_rat 25"
definition MONTH_STORAGE :: double where "MONTH_STORAGE = double_of_rat (56 / 5)"

datatype LocationType = SLIP | LAND | TRAILOR | STORAGE

text \<open>
  The union \<open>LocationDetail\<close>. Every read of the union in the program goes through the
  member that \<open>createBoat\<close> wrote for the boat's \<open>locType\<close>, which never changes, so the
  union is modelled by the member last written.
\<close>

datatype LocationDetail =
  slipNumber "32 word" | bayLetter char | licenseTag string | storageNum "32 word"

record Boat =
  name :: string
  length' :: "32 word"
  locType :: LocationType
  detail :: LocationDetail
  amountOwed :: double

text \<open>
  \<open>BoatManager\<close>: the active prefix \<open>boats[0 .. numBoats)\<close> of the pointer array. Each
  active slot holds the only pointer to its own heap-allocated \<open>Boat\<close> and is never
  NULL (slots are filled from successful \<open>createBoat\<close> calls and \<open>removeBoat\<close> closes
  the gap), so the prefix is a list of boats and \<open>numBoats\<close> is its length.
\<close>

record BoatManager =
  boats :: "Boat list"

definition numBoats :: "BoatManager \<Rightarrow> int" where
  "numBoats m = int (length (boats m))"

section \<open>Lookup, payment and monthly charge\<close>

fun findBoatIndex_from :: "int \<Rightarrow> Boat list \<Rightarrow> string \<Rightarrow> int" where
  "findBoatIndex_from i [] nm = - 1"
| "findBoatIndex_from i (b # bs) nm =
     (if caseInsensitiveCompare (name b) nm = 0 then i
      else findBoatIndex_from (i + 1) bs nm)"

definition findBoatIndex :: "BoatManager \<Rightarrow> string \<Rightarrow> int" where
  "findBoatIndex m nm = findBoatIndex_from 0 (boats m) nm"

text \<open>What an interactive operation reports; one constructor per message or silent return.\<close>

datatype outcome =
  Done
  | InputEnded
  | InvalidCSV
  | ArrayFull
  | AllocationError
  | NoBoatWithThatName
  | InvalidAmount
  | MoreThanOwed double
  | OutsideModel

text \<open>\<open>name[strcspn(name, "\n")] = '\0'\<close>: cut the buffer at its first newline.\<close>

definition chop_newline :: "string \<Rightarrow> string" where
  "chop_newline s = takeWhile (\<lambda>c. c \<noteq> CHR 0x0A) s"

text \<open>
  \<open>acceptPayment\<close> (source lines 492-525). The results of the two input calls are
  arguments: \<open>name_in\<close> is the buffer \<open>fgets\<close> filled (\<open>None\<close> at end of input) and
  \<open>pay_in\<close> the value \<open>scanf("%lf")\<close> stored (\<open>None\<close> when it converted nothing). The
  loops that discard the rest of the input line touch no program state.
\<close>

definition acceptPayment :: "BoatManager \<Rightarrow> string option \<Rightarrow> double option \<Rightarrow> outcome \<times> BoatManager" where
  "acceptPayment m name_in pay_in =
     (case name_in of
        None \<Rightarrow> (InputEnded, m)
      | Some buf \<Rightarrow>
          (let idx = findBoatIndex m (chop_newline (cstr buf))
           in if idx < 0 then (NoBoatWithThatName, m)
              else (case pay_in of
                      None \<Rightarrow> (InvalidAmount, m)
                    | Some payment \<Rightarrow>
                        (let b = boats m ! nat idx
                         in if dgt payment (amountOwed b) then (MoreThanOwed (amountOwed b), m)
                            else (Done,
                                  m\<lparr>boats := (boats m)[nat idx :=
                                       b\<lparr>amountOwed := dsub (amountOwed b) payment\<rparr>]\<rparr>)))))"

definition monthly_charge :: "Boat \<Rightarrow> double" where
  "monthly_charge b =
     (case locType b of
        SLIP \<Rightarrow> dmul MONTH_SLIP (double_of_int (length' b))
      | LAND \<Rightarrow> dmul MONTH_LAND (double_of_int (length' b))
      | TRAILOR \<Rightarrow> dmul MONTH_TRAILOR (double_of_int (length' b))
      | STORAGE \<Rightarrow> dmul MONTH_STORAGE (double_of_int (length' b)))"

definition monthlyUpdate :: "BoatManager \<Rightarrow> BoatManager" where
  "monthlyUpdate m =
     m\<lparr>boats := map (\<lambda>b. b\<lparr>amountOwed := dadd (amountOwed b) (monthly_charge b)\<rparr>) (boats m)\<rparr>"

text \<open>Predicates used to state what the lookup finds: no boat matches, or index \<open>i\<close> is the first match.\<close>

definition no_match :: "Boat list \<Rightarrow> string \<Rightarrow> bool" where
  "no_match bs nm = list_all (\<lambda>b. caseInsensitiveCompare (name b) nm \<noteq> 0) bs"

definition first_match :: "Boat list \<Rightarrow> string \<Rightarrow> nat \<Rightarrow> bool" where
  "first_match bs nm i =
     (i < length bs \<and> caseInsensitiveCompare (name (bs ! i)) nm = 0 \<and> no_match (take i bs) nm)"

text \<open>The store with the balance of slot \<open>i\<close> replaced, every other field and slot as before.\<close>

definition set_owed :: "BoatManager \<Rightarrow> nat \<Rightarrow> double \<Rightarrow> BoatManager" where
  "set_owed m i v = m\<lparr>boats := (boats m)[i := (boats m ! i)\<lparr>amountOwed := v\<rparr>]\<rparr>"

text \<open>A sample record: the example line of the source comment at line 297.\<close>

definition big_brother :: Boat where
  "big_brother = \<lparr>name = ''Big Brother'', length' = 20, locType = SLIP, detail = slipNumber 27,
             amountOwed = Finite False 1200\<rparr>"

text \<open>
  The per-foot monthly rates as the specification lists them (Slip 12.50, Land 14.00,
  Trailor 25.00, Storage 11.20), as exact decimal fractions; to be compared with the
  constants of the source.
\<close>

definition spec_rate :: "LocationType \<Rightarrow> rat" where
  "spec_rate k = (case k of SLIP \<Rightarrow> 25 / 2 | LAND \<Rightarrow> 14 | TRAILOR \<Rightarrow> 25 | STORAGE \<Rightarrow> 56 / 5)"

text \<open>A record with a large balance: \<open>10^16\<close> is exactly representable.\<close>

definition rich_boat :: Boat where
  "rich_boat = \<lparr>name = ''Leviathan'', length' = 99, locType = LAND, detail = bayLetter CHR ''C'',
             amountOwed = Finite False 10000000000000000\<rparr>"

section \<open>Library conversions: \<open>atoi\<close>, \<open>sscanf\<close>, \<open>fgets\<close>, \<open>printf\<close>\<close>

text \<open>
  The numeric conversions follow glibc on a 64-bit target: an integer is scanned as a
  \<open>long\<close> (clamped to its range) and stored in an \<open>int\<close> by truncation to 32 bits; a
  decimal float is rounded correctly.
\<close>

definition skip_space :: "string \<Rightarrow> string" where
  "skip_space s = dropWhile isspace s"

definition digit_val :: "char \<Rightarrow> int" where
  "digit_val c = int (uchar c) - 48"

definition decimal :: "string \<Rightarrow> int" where
  "decimal ds = foldl (\<lambda>a c. 10 * a + digit_val c) 0 ds"

definition clamp_long :: "int \<Rightarrow> int" where
  "clamp_long v = max (- (2 ^ 63)) (min (2 ^ 63 - 1) v)"

definition has_sign :: "string \<Rightarrow> bool" where
  "has_sign s = (peek s = CHR ''-'' \<or> peek s = CHR ''+'')"

definition drop_sign :: "string \<Rightarrow> string" where
  "drop_sign s = (if has_sign s then tl s else s)"

text \<open>The \<open>%d\<close> directive: the value stored and the input left, or \<open>None\<close> when no digit follows.\<close>

definition scan_int :: "string \<Rightarrow> (32 word \<times> string) option" where
  "scan_int s =
     (let t = skip_space s;
          u = drop_sign t;
          ds = takeWhile isdigit u
      in if ds = [] then None
         else Some (word_of_int (clamp_long (if peek t = CHR ''-'' then - decimal ds else decimal ds)),
                    dropWhile isdigit u))"

definition atoi :: "string \<Rightarrow> 32 word" where
  "atoi s = (case scan_int (cstr s) of None \<Rightarrow> 0 | Some (v, r) \<Rightarrow> v)"

datatype 'a conv = Converted 'a | NoMatch | HexFloat

definition lower_prefix :: "string \<Rightarrow> string \<Rightarrow> bool" where
  "lower_prefix p s = (map tolower (take (length p) s) = p)"

definition scan_exp :: "string \<Rightarrow> int" where
  "scan_exp r =
     (let ds = takeWhile isdigit (drop_sign r)
      in if ds = [] then 0 else if peek r = CHR ''-'' then - decimal ds else decimal ds)"

text \<open>
  The \<open>%lf\<close> directive on decimal notation, \<open>inf\<close>/\<open>infinity\<close> and \<open>nan\<close>. An exponent
  letter with no digits after it is read and ignored, as glibc does. Hexadecimal floats
  are outside the model and reported as \<open>HexFloat\<close>.
\<close>

definition scan_double :: "string \<Rightarrow> double conv" where
  "scan_double s =
     (let t = skip_space s;
          neg = (peek t = CHR ''-'');
          u = drop_sign t
      in if lower_prefix ''nan'' u then Converted NaN
         else if lower_prefix ''inf'' u then
           (if tolower (peek (drop 3 u)) = CHR ''i'' \<and> \<not> lower_prefix ''inity'' (drop 3 u)
            then NoMatch else Converted (Infinity neg))
         else if lower_prefix ''0x'' u then HexFloat
         else
           (let ip = takeWhile isdigit u;
                r1 = dropWhile isdigit u;
                fp = (if peek r1 = CHR ''.'' then takeWhile isdigit (tl r1) else []);
                r2 = (if peek r1 = CHR ''.'' then dropWhile isdigit (tl r1) else r1)
            in if ip @ fp = [] then NoMatch
               else Converted
                      (round_double neg
                         (of_int (decimal (ip @ fp)) / 10 ^ length fp
                            * 10 powi (if tolower (peek r2) = CHR ''e'' then scan_exp (tl r2) else 0)))))"

definition not_comma :: "char \<Rightarrow> bool" where
  "not_comma c = (c \<noteq> CHR '','')"

definition expect_comma :: "string \<Rightarrow> string option" where
  "expect_comma s = (case s of [] \<Rightarrow> None | c # r \<Rightarrow> if c = CHR '','' then Some r else None)"

text \<open>
  The call \<open>sscanf(line, " %[^,],%d,%[^,],%[^,],%lf", boatName, &length, locStr,
  detailStr, &owed)\<close> of \<open>loadFromCSV\<close> and \<open>addBoat\<close>. \<open>Fields\<close> is a return value of 5
  with the five objects stored; \<open>Count k\<close> is any other return value (\<open>-1\<close> for EOF).
  The \<open>%[^,]\<close> directives carry no width: a run longer than its buffer
  (\<open>boatName[128]\<close>, \<open>locStr[32]\<close>, \<open>detailStr[64]\<close>) writes past it, which is undefined
  behaviour and reported as \<open>Unmodelled\<close>, as is a hexadecimal amount.
\<close>

datatype scanned = Fields string "32 word" string string double | Count int | Unmodelled

definition sscanf_boat :: "string \<Rightarrow> scanned" where
  "sscanf_boat line =
     (let s0 = skip_space line in
      if s0 = [] then Count (- 1) else
      let boatName = takeWhile not_comma s0 in
      if boatName = [] then Count 0 else
      if 127 < length boatName then Unmodelled else
      case expect_comma (dropWhile not_comma s0) of None \<Rightarrow> Count 1 | Some s2 \<Rightarrow>
      case scan_int s2 of None \<Rightarrow> Count 1 | Some (len, s3) \<Rightarrow>
      case expect_comma s3 of None \<Rightarrow> Count 2 | Some s4 \<Rightarrow>
      let locStr = takeWhile not_comma s4 in
      if locStr = [] then Count 2 else
      if 31 < length locStr then Unmodelled else
      case expect_comma (dropWhile not_comma s4) of None \<Rightarrow> Count 3 | Some s6 \<Rightarrow>
      let detailStr = takeWhile not_comma s6 in
      if detailStr = [] then Count 3 else
      if 63 < length detailStr then Unmodelled else
      case expect_comma (dropWhile not_comma s6) of None \<Rightarrow> Count 4 | Some s8 \<Rightarrow>
      case scan_double s8 of
        NoMatch \<Rightarrow> Count 4
      | HexFloat \<Rightarrow> Unmodelled
      | Converted owed \<Rightarrow> Fields boatName len locStr detailStr owed)"

text \<open>
  \<open>fgets(line, n, fp)\<close>: at most \<open>n - 1\<close> bytes, stopping after a newline; \<open>None\<close> at the
  end of the input. The result is the buffer and the input left.
\<close>

fun read_line :: "nat \<Rightarrow> string \<Rightarrow> string \<times> string" where
  "read_line 0 s = ([], s)"
| "read_line (Suc k) [] = ([], [])"
| "read_line (Suc k) (c # s) =
     (if c = CHR 0x0A then ([c], s) else (c # fst (read_line k s), snd (read_line k s)))"

definition fgets :: "nat \<Rightarrow> string \<Rightarrow> (string \<times> string) option" where
  "fgets n inp = (if inp = [] then None else Some (read_line (n - 1) inp))"





section \<open>Creating, sorting, adding, removing\<close>

text \<open>\<open>parseLocationType\<close> (source lines 183-200).\<close>

definition parseLocationType :: "string \<Rightarrow> LocationType" where
  "parseLocationType locStr =
     (let lower = map tolower (take 31 (cstr locStr))
      in if lower = ''slip'' then SLIP
         else if lower = ''land'' then LAND
         else if lower = ''trailor'' then TRAILOR
         else if lower = ''storage'' then STORAGE
         else SLIP)"


text \<open>
  \<open>createBoat\<close> (source lines 248-282). \<open>avail\<close> says whether \<open>malloc\<close> returns a block;
  \<open>None\<close> is the NULL result.
\<close>

definition createBoat ::
  "bool \<Rightarrow> string \<Rightarrow> 32 word \<Rightarrow> LocationType \<Rightarrow> string \<Rightarrow> double \<Rightarrow> Boat option" where
  "createBoat avail nm len lt detailStr owed =
     (if \<not> avail then None
      else Some \<lparr>name = take (MAX_NAME - 1) (cstr nm),
                 length' = len,
                 locType = lt,
                 detail = (case lt of
                             SLIP \<Rightarrow> slipNumber (atoi detailStr)
                           | LAND \<Rightarrow> bayLetter (peek detailStr)
                           | TRAILOR \<Rightarrow> licenseTag (take 31 (cstr detailStr))
                           | STORAGE \<Rightarrow> storageNum (atoi detailStr)),
                 amountOwed = owed\<rparr>)"

text \<open>
  \<open>boatCompareByName\<close> on two active slots (neither is NULL), and \<open>sortBoatsByName\<close>.
  \<open>qsort\<close> is the C library's; it is an argument of the model, and \<open>sorts_by\<close> is what
  the C standard promises of it: the result is a rearrangement of the array in which
  no element compares greater than a later one. The order of elements that compare
  equal is left open by the standard.
\<close>

definition boatCompareByName :: "Boat \<Rightarrow> Boat \<Rightarrow> int" where
  "boatCompareByName b1 b2 = caseInsensitiveCompare (name b1) (name b2)"

definition sortBoatsByName ::
  "((Boat \<Rightarrow> Boat \<Rightarrow> int) \<Rightarrow> Boat list \<Rightarrow> Boat list) \<Rightarrow> BoatManager \<Rightarrow> BoatManager" where
  "sortBoatsByName qsort m = m\<lparr>boats := qsort boatCompareByName (boats m)\<rparr>"

definition sorts_by :: "(Boat \<Rightarrow> Boat \<Rightarrow> int) \<Rightarrow> (Boat list \<Rightarrow> Boat list) \<Rightarrow> bool" where
  "sorts_by cmp f = (\<forall>xs. mset (f xs) = mset xs \<and> sorted_wrt (\<lambda>a b. cmp a b \<le> 0) (f xs))"

text \<open>A sorting procedure that meets the promise: insertion sort.\<close>

fun insert_by :: "('a \<Rightarrow> 'a \<Rightarrow> int) \<Rightarrow> 'a \<Rightarrow> 'a list \<Rightarrow> 'a list" where
  "insert_by cmp x [] = [x]"
| "insert_by cmp x (y # ys) = (if cmp x y \<le> 0 then x # y # ys else y # insert_by cmp x ys)"

definition isort_by :: "('a \<Rightarrow> 'a \<Rightarrow> int) \<Rightarrow> 'a list \<Rightarrow> 'a list" where
  "isort_by cmp xs = foldr (insert_by cmp) xs []"

text \<open>
  The \<open>qsort\<close> that the program is linked with, as glibc implements it: an array of
  less than 1024 bytes (120 pointers of 8 bytes are 960) is sorted by a merge sort in a
  buffer on the stack. The array is cut at \<open>n / 2\<close>, both parts are sorted, and the merge
  takes the element of the first part whenever the comparison of the two heads is not
  positive.
\<close>

fun merge_by :: "('a \<Rightarrow> 'a \<Rightarrow> int) \<Rightarrow> 'a list \<Rightarrow> 'a list \<Rightarrow> 'a list" where
  "merge_by cmp [] ys = ys"
| "merge_by cmp (x # xs) [] = x # xs"
| "merge_by cmp (x # xs) (y # ys) =
     (if cmp x y \<le> 0 then x # merge_by cmp xs (y # ys) else y # merge_by cmp (x # xs) ys)"

function glibc_qsort :: "('a \<Rightarrow> 'a \<Rightarrow> int) \<Rightarrow> 'a list \<Rightarrow> 'a list" where
  "glibc_qsort cmp xs =
     (if length xs \<le> 1 then xs
      else merge_by cmp (glibc_qsort cmp (take (length xs div 2) xs))
                        (glibc_qsort cmp (drop (length xs div 2) xs)))"
  by pat_completeness auto
termination
  by (relation "measure (\<lambda>(cmp, xs). length xs)") auto

declare glibc_qsort.simps [simp del]

text \<open>\<open>addBoat\<close> (source lines 420-458); \<open>line_in\<close> is the buffer \<open>fgets\<close> filled.\<close>

definition addBoat ::
  "((Boat \<Rightarrow> Boat \<Rightarrow> int) \<Rightarrow> Boat list \<Rightarrow> Boat list) \<Rightarrow> bool \<Rightarrow> BoatManager \<Rightarrow> string option
     \<Rightarrow> outcome \<times> BoatManager" where
  "addBoat qsort avail m line_in =
     (case line_in of
        None \<Rightarrow> (InputEnded, m)
      | Some buf \<Rightarrow>
          (case sscanf_boat (chop_newline (cstr buf)) of
             Unmodelled \<Rightarrow> (OutsideModel, m)
           | Count k \<Rightarrow> (InvalidCSV, m)
           | Fields boatName len locStr detailStr owed \<Rightarrow>
               if int MAX_BOATS \<le> numBoats m then (ArrayFull, m)
               else (case createBoat avail boatName len (parseLocationType locStr) detailStr owed of
                       None \<Rightarrow> (AllocationError, m)
                     | Some b \<Rightarrow> (Done, sortBoatsByName qsort (m\<lparr>boats := boats m @ [b]\<rparr>)))))"

text \<open>
  \<open>removeBoat\<close> (source lines 461-489): the loop copies each later slot one place down,
  then \<open>numBoats\<close> is decremented.
\<close>

definition shift_down :: "nat \<Rightarrow> Boat list \<Rightarrow> Boat list" where
  "shift_down idx bs = butlast (fold (\<lambda>i xs. xs[i := xs ! (i + 1)]) [idx..<length bs - 1] bs)"

definition removeBoat ::
  "((Boat \<Rightarrow> Boat \<Rightarrow> int) \<Rightarrow> Boat list \<Rightarrow> Boat list) \<Rightarrow> BoatManager \<Rightarrow> string option
     \<Rightarrow> outcome \<times> BoatManager" where
  "removeBoat qsort m name_in =
     (case name_in of
        None \<Rightarrow> (InputEnded, m)
      | Some buf \<Rightarrow>
          (let idx = findBoatIndex m (chop_newline (cstr buf))
           in if idx < 0 then (NoBoatWithThatName, m)
              else (Done, sortBoatsByName qsort (m\<lparr>boats := shift_down (nat idx) (boats m)\<rparr>))))"

section \<open>Loading and saving\<close>

text \<open>
  The body of the \<open>while\<close> loop of \<open>loadFromCSV\<close> (source lines 303-324) for one line
  buffer; \<open>None\<close> when the line takes the program outside the model.
\<close>

definition load_line :: "bool \<Rightarrow> BoatManager \<Rightarrow> string \<Rightarrow> BoatManager option" where
  "load_line avail m line =
     (case sscanf_boat (cstr line) of
        Unmodelled \<Rightarrow> None
      | Count k \<Rightarrow> Some m
      | Fields boatName len locStr detailStr owed \<Rightarrow>
          (case createBoat avail boatName len (parseLocationType locStr) detailStr owed of
             None \<Rightarrow> Some m
           | Some b \<Rightarrow>
               if numBoats m < int MAX_BOATS then Some (m\<lparr>boats := boats m @ [b]\<rparr>)
               else Some m))"

text \<open>
  The loop itself; \<open>avail k\<close> says whether the allocation for the \<open>k\<close>-th line read
  succeeds.
\<close>

function load_loop :: "(nat \<Rightarrow> bool) \<Rightarrow> nat \<Rightarrow> BoatManager \<Rightarrow> string \<Rightarrow> BoatManager option" where
  "load_loop avail k m inp =
     (case fgets 512 inp of
        None \<Rightarrow> Some m
      | Some (line, rest) \<Rightarrow>
          (case load_line (avail k) m line of
             None \<Rightarrow> None
           | Some m' \<Rightarrow> load_loop avail (k + 1) m' rest))"
  by pat_completeness auto
termination
proof (relation "measure (\<lambda>(avail, k, m, inp). length inp)")
  show "wf (measure (\<lambda>(avail, k, m, inp). length inp))" by simp
next
  fix avail :: "nat \<Rightarrow> bool" and k :: nat and m :: BoatManager and inp x2 line rest :: string
    and x :: "string \<times> string" and m' :: BoatManager
  assume "fgets 512 inp = Some x" and "(line, rest) = x"
  then have r: "inp \<noteq> []" "rest = snd (read_line 511 inp)"
    by (auto simp: fgets_def split: if_splits)
  have le: "length (snd (read_line n s)) \<le> length s" for n s
    by (induction n s rule: read_line.induct) auto
  from r(1) obtain c t where ct: "inp = c # t" by (cases inp) auto
  have "read_line 511 (c # t) =
      (if c = CHR 0x0A then ([c], t) else (c # fst (read_line 510 t), snd (read_line 510 t)))"
    using read_line.simps(3) [of 510 c t] by simp
  then have "length (snd (read_line 511 inp)) < length inp"
    using le [of 510 t] by (simp add: ct less_Suc_eq_le)
  with r show "((avail, k + 1, m', rest), (avail, k, m, inp)) \<in> measure (\<lambda>(avail, k, m, inp). length inp)"
    by simp
qed

declare load_loop.simps [simp del]

text \<open>
  \<open>loadFromCSV\<close> (source lines 285-330); \<open>file\<close> is the content of the file, \<open>None\<close> when
  it cannot be opened.
\<close>

definition loadFromCSV ::
  "((Boat \<Rightarrow> Boat \<Rightarrow> int) \<Rightarrow> Boat list \<Rightarrow> Boat list) \<Rightarrow> (nat \<Rightarrow> bool) \<Rightarrow> BoatManager
     \<Rightarrow> string option \<Rightarrow> BoatManager option" where
  "loadFromCSV qsort avail m file =
     (case file of
        None \<Rightarrow> Some m
      | Some inp \<Rightarrow> map_option (sortBoatsByName qsort) (load_loop avail 0 m inp))"



definition empty_manager :: BoatManager where
  "empty_manager = \<lparr>boats = []\<rparr>"

section \<open>Notions used to state the properties\<close>

text \<open>
  The name as the comparison sees it: the bytes before the terminator, lower-cased, as
  unsigned values. Lists of numbers are ordered lexicographically, a proper prefix
  being smaller; \<open>name_le\<close> is the case-insensitive lexicographic order on names that
  the specification asks for.
\<close>

definition fold_key :: "string \<Rightarrow> nat list" where
  "fold_key s = map (\<lambda>c. uchar (tolower c)) (cstr s)"

definition name_le :: "Boat \<Rightarrow> Boat \<Rightarrow> bool" where
  "name_le a b = (fold_key (name a) \<le> fold_key (name b))"

text \<open>Case-insensitive exact match of two C strings, as the specification words it.\<close>

definition same_ignoring_case :: "string \<Rightarrow> string \<Rightarrow> bool" where
  "same_ignoring_case a b = (map tolower (cstr a) = map tolower (cstr b))"

text \<open>
  \<open>after\<close> keeps the relative order that \<open>before\<close> gives to the records whose names
  are equal ignoring case.
\<close>

definition tie_order_kept :: "Boat list \<Rightarrow> Boat list \<Rightarrow> bool" where
  "tie_order_kept before after =
     list_all (\<lambda>x. filter (\<lambda>b. same_ignoring_case (name b) (name x)) after
                 = filter (\<lambda>b. same_ignoring_case (name b) (name x)) before) before"

text \<open>Two records whose names differ in letter case only.\<close>

definition ann1 :: Boat where
  "ann1 = \<lparr>name = ''Ann'', length' = 18, locType = SLIP, detail = slipNumber 1,
            amountOwed = Finite False 0\<rparr>"

definition ann2 :: Boat where
  "ann2 = \<lparr>name = ''ANN'', length' = 20, locType = SLIP, detail = slipNumber 2,
            amountOwed = Finite False 0\<rparr>"

text \<open>A record whose name equals that of \<open>big_brother\<close> up to letter case.\<close>

definition little_brother :: Boat where
  "little_brother = \<lparr>name = ''big brother'', length' = 30, locType = LAND,
      detail = bayLetter CHR ''C'', amountOwed = Finite False 0\<rparr>"

text \<open>The record that the line "Foo,10,submarine,5,0.00" stands for.\<close>

definition foo_boat :: Boat where
  "foo_boat = \<lparr>name = ''Foo'', length' = 10, locType = SLIP, detail = slipNumber 5,
      amountOwed = Finite False 0\<rparr>"

text \<open>A file with one well-formed line and one line of three fields.\<close>

definition two_line_file :: string where
  "two_line_file =
     ''Big Brother,20,slip,27,1200.00'' @ CHR 0x0A # ''Foo,10,slip'' @ CHR 0x0A # []"

text \<open>A file of two well-formed lines that are not in name order.\<close>

definition unsorted_file :: string where
  "unsorted_file =
     ''Foo,10,submarine,5,0.00'' @ CHR 0x0A # ''Big Brother,20,slip,27,1200.00'' @ CHR 0x0A # []"











section \<open>Properties of the comparison and the lookup\<close>

lemma cic_Nil_Nil: "caseInsensitiveCompare [] [] = 0"
  by (subst caseInsensitiveCompare.simps) (simp add: peek_def uchar_def tolower_def)

lemma cic_Cons_Cons:
  "caseInsensitiveCompare (x # xs) (y # ys) =
     (if uchar (tolower x) < uchar (tolower y) then - 1
      else if uchar (tolower x) > uchar (tolower y) then 1
      else if uchar (tolower x) = 0 then 0
      else caseInsensitiveCompare xs ys)"
  by (subst caseInsensitiveCompare.simps) (simp add: peek_def Let_def)

lemma cic_Nil_Cons: "caseInsensitiveCompare [] (y # ys) = (if 0 < uchar (tolower y) then - 1 else 0)"
  by (subst caseInsensitiveCompare.simps) (simp add: peek_def uchar_def tolower_def Let_def)

lemma cic_Cons_Nil: "caseInsensitiveCompare (x # xs) [] = (if 0 < uchar (tolower x) then 1 else 0)"
  by (subst caseInsensitiveCompare.simps) (simp add: peek_def uchar_def tolower_def Let_def)

lemmas cic_simps = cic_Nil_Nil cic_Cons_Cons cic_Nil_Cons cic_Cons_Nil uchar_def tolower_def

lemma find_from_no_match: "no_match bs nm \<Longrightarrow> findBoatIndex_from i bs nm = - 1"
  by (induction bs arbitrary: i) (auto simp: no_match_def)

lemma find_from_first_match:
  "first_match bs nm k \<Longrightarrow> findBoatIndex_from i bs nm = i + int k"
proof (induction bs arbitrary: i k)
  case Nil
  then show ?case by (simp add: first_match_def)
next
  case (Cons b bs)
  show ?case
  proof (cases k)
    case 0
    with Cons.prems show ?thesis by (simp add: first_match_def)
  next
    case (Suc j)
    with Cons.prems have "caseInsensitiveCompare (name b) nm \<noteq> 0" and "first_match bs nm j"
      by (auto simp: first_match_def no_match_def)
    with Cons.IH [of j "i + 1"] Suc show ?thesis by simp
  qed
qed

lemma findBoatIndex_no_match: "no_match (boats m) nm \<Longrightarrow> findBoatIndex m nm = - 1"
  by (simp add: findBoatIndex_def find_from_no_match)

lemma findBoatIndex_first_match: "first_match (boats m) nm k \<Longrightarrow> findBoatIndex m nm = int k"
  by (simp add: findBoatIndex_def find_from_first_match)

lemma dlt_irrefl: "\<not> dlt x x"
  by (cases x) auto

lemma dsub_self: "dsub (Finite s v) (Finite s v) = Finite False 0"
  by (simp add: dsub_def signed_val_def)

section \<open>Payment\<close>

text \<open>
  C1. \<open>acceptPayment\<close> reports "No boat with that name" and leaves the store as it is
  when no record's name compares equal (ignoring case) to the entered name. When slot
  \<open>i\<close> is the first match, it reports "more than the amount owed" exactly when the
  payment is strictly greater than that record's balance, again leaving the store as it
  is, and otherwise subtracts the payment from that record's balance in place. Paying
  exactly a finite balance succeeds and leaves the balance at zero.
\<close>

theorem acceptPayment_cases:
  "(no_match (boats m) (chop_newline (cstr buf)) \<longrightarrow>
      acceptPayment m (Some buf) pay = (NoBoatWithThatName, m)) \<and>
   (first_match (boats m) (chop_newline (cstr buf)) i \<longrightarrow>
      acceptPayment m (Some buf) (Some payment) =
        (if dgt payment (amountOwed (boats m ! i))
         then (MoreThanOwed (amountOwed (boats m ! i)), m)
         else (Done, set_owed m i (dsub (amountOwed (boats m ! i)) payment)))) \<and>
   (first_match (boats m) (chop_newline (cstr buf)) i \<and> amountOwed (boats m ! i) = Finite s v \<longrightarrow>
      acceptPayment m (Some buf) (Some (Finite s v)) = (Done, set_owed m i (Finite False 0)))"
proof (intro conjI impI)
  assume "no_match (boats m) (chop_newline (cstr buf))"
  then show "acceptPayment m (Some buf) pay = (NoBoatWithThatName, m)"
    by (simp add: acceptPayment_def findBoatIndex_no_match)
next
  assume "first_match (boats m) (chop_newline (cstr buf)) i"
  then show "acceptPayment m (Some buf) (Some payment) =
        (if dgt payment (amountOwed (boats m ! i))
         then (MoreThanOwed (amountOwed (boats m ! i)), m)
         else (Done, set_owed m i (dsub (amountOwed (boats m ! i)) payment)))"
    by (simp add: acceptPayment_def findBoatIndex_first_match set_owed_def Let_def)
next
  assume "first_match (boats m) (chop_newline (cstr buf)) i \<and> amountOwed (boats m ! i) = Finite s v"
  then show "acceptPayment m (Some buf) (Some (Finite s v)) = (Done, set_owed m i (Finite False 0))"
    by (clarsimp simp add: acceptPayment_def findBoatIndex_first_match set_owed_def Let_def dgt_def
        dsub_self)
qed

theorem acceptPayment_cases_witness:
  "acceptPayment \<lparr>boats = [big_brother]\<rparr> (Some ''Nobody'') None
     = (NoBoatWithThatName, \<lparr>boats = [big_brother]\<rparr>) \<and>
   acceptPayment \<lparr>boats = [big_brother]\<rparr> (Some ''big brother'') (Some (Finite False (2401 / 2)))
     = (MoreThanOwed (Finite False 1200), \<lparr>boats = [big_brother]\<rparr>) \<and>
   acceptPayment \<lparr>boats = [big_brother]\<rparr> (Some ''big brother'') (Some (Finite False 1200))
     = (Done, \<lparr>boats = [big_brother\<lparr>amountOwed := Finite False 0\<rparr>]\<rparr>)"
proof -
  have nm: "no_match [big_brother] (chop_newline (cstr ''Nobody''))"
    by (simp add: no_match_def big_brother_def chop_newline_def cstr_def cic_simps)
  have fm: "first_match [big_brother] (chop_newline (cstr ''big brother'')) 0"
    by (simp add: first_match_def no_match_def big_brother_def chop_newline_def cstr_def cic_simps)
  have ow: "amountOwed ([big_brother] ! 0) = Finite False 1200"
    by (simp add: big_brother_def)
  show ?thesis
    using acceptPayment_cases [of "\<lparr>boats = [big_brother]\<rparr>" "''Nobody''" None]
      acceptPayment_cases [of "\<lparr>boats = [big_brother]\<rparr>" "''big brother''" None
        0 "Finite False (2401 / 2)" False 1200] nm fm ow
    by (simp add: set_owed_def dgt_def signed_val_def)
qed

section \<open>Rounding to binary64\<close>

lemma floor_log2_ge1:
  fixes a :: rat
  assumes "1 \<le> a"
  shows "2 powi (floor_log2 a) \<le> a \<and> a < 2 powi (floor_log2 a + 1)"
proof -
  define n where "n = nat \<lfloor>a\<rfloor>"
  define k where "k = floorlog 2 n"
  have n1: "1 \<le> n" using assms by (simp add: n_def le_nat_iff)
  have bnd: "2 ^ (k - 1) \<le> n \<and> n < 2 ^ k"
    unfolding k_def using floorlog_bounds [of n 2] n1 by simp
  have k1: "1 \<le> k" using bnd n1 by (cases k) auto
  have fl: "floor_log2 a = int k - 1"
    using assms by (simp add: floor_log2_def n_def k_def)
  have na: "of_nat n \<le> a" "a < of_nat n + 1"
    using assms by (simp_all add: n_def) linarith+
  have p1: "(2::rat) powi (int k - 1) = 2 ^ (k - 1)"
    using k1 by (simp add: power_int_def nat_diff_distrib')
  have p2: "(2::rat) powi (int k - 1 + 1) = 2 ^ k"
    by (simp add: power_int_def)
  have "(2::rat) ^ (k - 1) \<le> of_nat n"
    using bnd by (metis of_nat_le_iff of_nat_numeral of_nat_power)
  moreover have "(of_nat n :: rat) + 1 \<le> 2 ^ k"
  proof -
    have "n + 1 \<le> 2 ^ k" using bnd by simp
    then have "(of_nat (n + 1) :: rat) \<le> of_nat (2 ^ k)" by (rule iffD2 [OF of_nat_le_iff])
    then show ?thesis by simp
  qed
  ultimately have "(2::rat) ^ (k - 1) \<le> a" "a < 2 ^ k" using na by linarith+
  then show ?thesis unfolding fl p1 p2 by simp
qed

lemma floor_log2_lt1:
  fixes a :: rat
  assumes "0 < a" "a < 1"
  shows "2 powi (floor_log2 a) \<le> a \<and> a < 2 powi (floor_log2 a + 1)"
proof -
  define c where "c = nat \<lceil>1 / a\<rceil>"
  define k where "k = floorlog 2 (c - 1)"
  have inv: "1 < 1 / a" using assms by simp
  then have ce: "2 \<le> \<lceil>1 / a\<rceil>" by linarith
  then have c2: "2 \<le> c" by (simp add: c_def le_nat_iff)
  have bnd: "2 ^ (k - 1) \<le> c - 1 \<and> c - 1 < 2 ^ k"
    unfolding k_def using floorlog_bounds [of "c - 1" 2] c2 by simp
  have k1: "1 \<le> k" using bnd c2 by (cases k) auto
  have fl: "floor_log2 a = - int k"
    using assms by (simp add: floor_log2_def c_def k_def)
  have ca: "1 / a \<le> of_nat c" "of_nat c - 1 < 1 / a"
    using ce by (simp_all add: c_def) linarith+
  have "c \<le> 2 ^ k" using bnd by arith
  then have "(of_nat c :: rat) \<le> 2 ^ k" by (metis of_nat_le_iff of_nat_numeral of_nat_power)
  then have u: "1 / a \<le> 2 ^ k" using ca by linarith
  have "(2::rat) ^ (k - 1) \<le> of_nat (c - 1)"
    using bnd by (metis of_nat_le_iff of_nat_numeral of_nat_power)
  moreover have "(of_nat (c - 1) :: rat) = of_nat c - 1" using c2 by (simp add: of_nat_diff)
  ultimately have l: "2 ^ (k - 1) < 1 / a" using ca by linarith
  have p1: "(2::rat) powi (- int k) = 1 / 2 ^ k"
    by (simp add: power_int_minus inverse_eq_divide)
  have p2: "(2::rat) powi (- int k + 1) = 1 / 2 ^ (k - 1)"
  proof -
    from k1 obtain j where kj: "k = Suc j" by (cases k) auto
    have "- int (Suc j) + 1 = - int j" by simp
    then have "(2::rat) powi (- int (Suc j) + 1) = 2 powi (- int j)" by (rule arg_cong)
    also have "\<dots> = 1 / 2 ^ j"
      by (simp only: power_int_minus power_int_of_nat inverse_eq_divide)
    finally show ?thesis by (simp only: kj diff_Suc_1)
  qed
  have "1 / 2 ^ k \<le> a"
    using u assms by (simp add: field_simps)
  moreover have "a < 1 / 2 ^ (k - 1)"
    using l assms by (simp add: field_simps)
  ultimately show ?thesis using fl p1 p2 by simp
qed

lemma floor_log2_bounds:
  "0 < a \<Longrightarrow> 2 powi (floor_log2 a) \<le> a \<and> a < 2 powi (floor_log2 a + 1)"
  using floor_log2_ge1 [of a] floor_log2_lt1 [of a] by (cases "1 \<le> a") auto

lemma powi2_mono: "i \<le> j \<Longrightarrow> (2::rat) powi i \<le> 2 powi j"
  by (rule power_int_increasing) simp_all

lemma floor_log2_unique:
  assumes "0 < a" "2 powi e \<le> a" "a < 2 powi (e + 1)"
  shows "floor_log2 a = e"
proof (rule ccontr)
  assume ne: "floor_log2 a \<noteq> e"
  let ?f = "floor_log2 a"
  from floor_log2_bounds [OF assms(1)] have b: "2 powi ?f \<le> a" "a < 2 powi (?f + 1)" by simp_all
  show False
  proof (cases "?f < e")
    case True
    then have "(2::rat) powi (?f + 1) \<le> 2 powi e" by (intro powi2_mono) simp
    with b assms show False by linarith
  next
    case False
    with ne have "(2::rat) powi (e + 1) \<le> 2 powi ?f" by (intro powi2_mono) simp
    with b assms show False by linarith
  qed
qed

lemma rhe_of_int: "round_half_even (of_int n) = n"
  by (simp add: round_half_even_def Let_def)

lemma rhe_bounds: "\<lfloor>x\<rfloor> \<le> round_half_even x \<and> round_half_even x \<le> \<lfloor>x\<rfloor> + 1"
  by (simp add: round_half_even_def Let_def)

lemma rhe_mono:
  assumes "x \<le> y"
  shows "round_half_even x \<le> round_half_even y"
proof (cases "\<lfloor>x\<rfloor> = \<lfloor>y\<rfloor>")
  case True
  then have "x - of_int \<lfloor>x\<rfloor> \<le> y - of_int \<lfloor>y\<rfloor>" using assms by simp
  then show ?thesis using True
    by (auto simp: round_half_even_def Let_def)
next
  case False
  then have "\<lfloor>x\<rfloor> + 1 \<le> \<lfloor>y\<rfloor>" using floor_mono [OF assms] by linarith
  then show ?thesis using rhe_bounds [of x] rhe_bounds [of y] by linarith
qed

lemma powi2_pos: "0 < (2::rat) powi i"
  by (rule zero_less_power_int) simp

lemma powi2_split: "(2::rat) powi (i + j) = 2 powi i * 2 powi j"
  by (rule power_int_add) simp

lemma powi2_smono: "(2::rat) powi i < 2 powi j \<Longrightarrow> i < j"
  by (metis linorder_not_less powi2_mono)

lemma floor_log2_mono:
  assumes "0 < x" "x \<le> y"
  shows "floor_log2 x \<le> floor_log2 y"
proof -
  have "0 < y" using assms by simp
  from floor_log2_bounds [OF assms(1)] floor_log2_bounds [OF this] assms(2)
  have "(2::rat) powi (floor_log2 x) < 2 powi (floor_log2 y + 1)" by linarith
  then have "floor_log2 x < floor_log2 y + 1" by (rule powi2_smono)
  then show ?thesis by simp
qed

lemma round_mag_0: "round_mag 0 = 0"
  by (simp add: round_mag_def)

lemma round_mag_nonneg: "0 \<le> m \<Longrightarrow> 0 \<le> round_mag m"
proof -
  assume m: "0 \<le> m"
  have "0 \<le> round_half_even (m / 2 powi i)" for i
  proof -
    have "0 \<le> m / 2 powi i" using m powi2_pos [of i] by simp
    then have "0 \<le> \<lfloor>m / 2 powi i\<rfloor>" by simp
    then show ?thesis using rhe_bounds [of "m / 2 powi i"] by linarith
  qed
  then show ?thesis using powi2_pos
    by (simp add: round_mag_def Let_def less_imp_le)
qed

lemma round_mag_eval:
  assumes "0 < m" "2 powi e \<le> m" "m < 2 powi (e + 1)" "- 1022 \<le> e"
  shows "round_mag m = of_int (round_half_even (m / 2 powi (e - 52))) * 2 powi (e - 52)"
  using assms floor_log2_unique [OF assms(1-3)] by (simp add: round_mag_def Let_def)

lemma round_mag_mono:
  assumes "0 \<le> x" "x \<le> y"
  shows "round_mag x \<le> round_mag y"
proof (cases "x = 0")
  case True
  then show ?thesis using round_mag_nonneg [of y] assms by (simp add: round_mag_0)
next
  case False
  then have x0: "0 < x" and y0: "0 < y" using assms by simp_all
  define ex where "ex = max (floor_log2 x) (- 1022)"
  define ey where "ey = max (floor_log2 y) (- 1022)"
  have rx: "round_mag x = of_int (round_half_even (x / 2 powi (ex - 52))) * 2 powi (ex - 52)"
    using x0 by (simp add: round_mag_def ex_def Let_def)
  have ry: "round_mag y = of_int (round_half_even (y / 2 powi (ey - 52))) * 2 powi (ey - 52)"
    using y0 by (simp add: round_mag_def ey_def Let_def)
  have le: "ex \<le> ey" using floor_log2_mono [OF x0 assms(2)] by (simp add: ex_def ey_def)
  show ?thesis
  proof (cases "ex = ey")
    case True
    have "x / 2 powi (ey - 52) \<le> y / 2 powi (ey - 52)"
      using assms(2) powi2_pos [of "ey - 52"] by (simp add: divide_right_mono)
    then have "round_half_even (x / 2 powi (ey - 52)) \<le> round_half_even (y / 2 powi (ey - 52))"
      by (rule rhe_mono)
    then have "(of_int (round_half_even (x / 2 powi (ey - 52))) :: rat)
        \<le> of_int (round_half_even (y / 2 powi (ey - 52)))" by simp
    then show ?thesis unfolding rx ry True
      using powi2_pos [of "ey - 52"] by (simp add: mult_right_mono)
  next
    case False
    then have lt: "ex + 1 \<le> ey" using le by simp
    then have eyf: "ey = floor_log2 y" by (simp add: ex_def ey_def max_def split: if_splits)
    have q53: "(2::rat) powi (ex + 1) = 2 ^ 53 * 2 powi (ex - 52)"
    proof -
      have "(2::rat) powi (53 + (ex - 52)) = 2 powi 53 * 2 powi (ex - 52)" by (rule powi2_split)
      then show ?thesis by (simp add: add.commute)
    qed
    have q52: "(2::rat) powi ey = 2 ^ 52 * 2 powi (ey - 52)"
    proof -
      have "(2::rat) powi (52 + (ey - 52)) = 2 powi 52 * 2 powi (ey - 52)" by (rule powi2_split)
      then show ?thesis by simp
    qed
    have "x < 2 powi (floor_log2 x + 1)" using floor_log2_bounds [OF x0] by simp
    also have "\<dots> \<le> 2 powi (ex + 1)" by (rule powi2_mono) (simp add: ex_def)
    finally have "x < 2 ^ 53 * 2 powi (ex - 52)" by (simp only: q53)
    then have "x / 2 powi (ex - 52) \<le> of_int (2 ^ 53)"
      using powi2_pos [of "ex - 52"] by (simp add: field_simps)
    then have "round_half_even (x / 2 powi (ex - 52)) \<le> 2 ^ 53"
      using rhe_mono rhe_of_int by metis
    then have "(of_int (round_half_even (x / 2 powi (ex - 52))) :: rat) \<le> of_int (2 ^ 53)"
      by (rule iffD2 [OF of_int_le_iff])
    then have "round_mag x \<le> 2 ^ 53 * 2 powi (ex - 52)"
      unfolding rx using powi2_pos [of "ex - 52"] by (simp add: mult_right_mono)
    then have X: "round_mag x \<le> 2 powi (ex + 1)" by (simp only: q53)
    have "2 ^ 52 * 2 powi (ey - 52) \<le> y" using floor_log2_bounds [OF y0] eyf q52 by simp
    then have "of_int (2 ^ 52) \<le> y / 2 powi (ey - 52)"
      using powi2_pos [of "ey - 52"] by (simp add: field_simps)
    then have "2 ^ 52 \<le> round_half_even (y / 2 powi (ey - 52))"
      using rhe_mono rhe_of_int by metis
    then have "(of_int (2 ^ 52) :: rat) \<le> of_int (round_half_even (y / 2 powi (ey - 52)))"
      by (rule iffD2 [OF of_int_le_iff])
    then have "2 ^ 52 * 2 powi (ey - 52) \<le> round_mag y"
      unfolding ry using powi2_pos [of "ey - 52"] by (simp add: mult_right_mono)
    then have Y: "2 powi ey \<le> round_mag y" by (simp only: q52)
    have "(2::rat) powi (ex + 1) \<le> 2 powi ey" using lt by (rule powi2_mono)
    with X Y show ?thesis by linarith
  qed
qed

lemma rhe_near:
  assumes "\<bar>x - of_int n\<bar> < 1 / 2"
  shows "round_half_even x = n"
proof (cases "of_int n \<le> x")
  case True
  then have "\<lfloor>x\<rfloor> = n" using assms by (intro floor_unique) linarith+
  then show ?thesis using assms True by (simp add: round_half_even_def Let_def)
next
  case False
  then have a: "x < of_int n" by simp
  have b: "of_int n - 1 \<le> x" using assms by linarith
  have f: "\<lfloor>x\<rfloor> = n - 1" using a b by (intro floor_unique) auto
  have c: "of_int n - 1 / 2 < x" using assms by linarith
  have "1 / 2 < x - of_int (n - 1)" unfolding of_int_diff of_int_1 using c by linarith
  then show ?thesis using f by (simp add: round_half_even_def Let_def)
qed

lemma round_mag_near:
  assumes "0 < m" "2 powi e \<le> m" "m < 2 powi (e + 1)" "- 1022 \<le> e"
    and "\<bar>m / 2 powi (e - 52) - of_int n\<bar> < 1 / 2"
  shows "round_mag m = of_int n * 2 powi (e - 52)"
  using round_mag_eval [OF assms(1-4)] rhe_near [OF assms(5)] by simp

lemma round_mag_25_2: "round_mag (25 / 2) = 25 / 2"
  using round_mag_near [of "25 / 2" 3 "25 * 2 ^ 48"] by simp

lemma round_mag_250: "round_mag 250 = 250"
  using round_mag_near [of 250 7 "250 * 2 ^ 45"] by simp

lemma round_mag_1450: "round_mag 1450 = 1450"
  using round_mag_near [of 1450 10 "1450 * 2 ^ 42"] by simp

lemma round_mag_1e16: "round_mag 10000000000000000 = 10000000000000000"
  using round_mag_near [of 10000000000000000 53 5000000000000000] by simp

lemma round_mag_1e16_half: "round_mag (20000000000000001 / 2) = 10000000000000000"
  using round_mag_near [of "20000000000000001 / 2" 53 5000000000000000] by simp

lemma round_mag_half: "round_mag (1 / 2) = 1 / 2"
  using round_mag_near [of "1 / 2" "- 1" "2 ^ 52"] by simp

lemma round_mag_11_20: "round_mag (56 / 5) = 3152519739159347 / 2 ^ 48"
  using round_mag_near [of "56 / 5" 3 6305039478318694] by simp

lemma round_mag_1200: "round_mag 1200 = 1200"
  using round_mag_near [of 1200 10 "1200 * 2 ^ 42"] by simp

lemma round_mag_1250: "round_mag 1250 = 1250"
  using round_mag_near [of 1250 10 "1250 * 2 ^ 42"] by simp

lemma MONTH_SLIP_val: "MONTH_SLIP = Finite False (25 / 2)"
  by (simp add: MONTH_SLIP_def double_of_rat_def round_double_def round_mag_25_2)

lemma negative_not_gt:
  assumes "dle dzero owed" "dlt amount dzero"
  shows "\<not> dgt amount owed"
  using assms
  by (cases owed; cases amount) (auto simp: dle_def dzero_def dgt_def signed_val_def split: if_splits)

lemma dsub_negative_ge:
  assumes "is_double owed" "dle dzero owed" "dlt amount dzero"
  shows "dle owed (dsub owed amount)"
proof (cases owed)
  case (Finite s m)
  note o = this
  from assms(1) o have m0: "0 \<le> m" and rm: "round_mag m = m" by (simp_all add: is_double_def)
  from assms(2) o have sv: "signed_val s m = m"
    using m0 by (auto simp: dle_def dzero_def signed_val_def split: if_splits)
  show ?thesis
  proof (cases amount)
    case (Finite t n)
    with assms(3) have neg: "signed_val t n < 0" by (simp add: dzero_def signed_val_def)
    then have flip: "signed_val (\<not> t) n = - signed_val t n" by (simp add: signed_val_def)
    define r where "r = m - signed_val t n"
    have r0: "0 < r" and mr: "m \<le> r" using neg m0 by (simp_all add: r_def)
    have ds: "dsub owed amount = round_double False r"
      using r0 by (simp add: o Finite dsub_def sv flip r_def double_of_rat_def Let_def)
    have "m \<le> round_mag r" using round_mag_mono [OF m0 mr] rm by simp
    moreover have "signed_val False x = x" for x by (simp add: signed_val_def)
    ultimately show ?thesis
      unfolding ds by (simp add: o round_double_def dle_def sv Let_def)
  next
    case (Infinity t)
    with assms(3) show ?thesis by (simp add: o dzero_def dsub_def dle_def)
  next
    case NaN
    with assms(3) show ?thesis by simp
  qed
next
  case (Infinity s)
  with assms show ?thesis
    by (cases amount) (auto simp: dle_def dzero_def dsub_def)
next
  case NaN
  with assms(2) show ?thesis by (simp add: dle_def)
qed

section \<open>Monthly charge\<close>

text \<open>
  C2. One call of \<open>monthlyUpdate\<close> replaces, for every record of the store, the balance
  by balance + rate(locType) * length, computed in double arithmetic, where the rate is
  the double nearest to the listed decimal rate (12.50, 14.00, 25.00, 11.20); it has no
  failure mode. A slip record of length 20 owing 1200.00 owes exactly 1450.00 afterwards.
\<close>

theorem monthlyUpdate_charges:
  "boats (monthlyUpdate m) =
     map (\<lambda>b. b\<lparr>amountOwed :=
            dadd (amountOwed b) (dmul (double_of_rat (spec_rate (locType b))) (double_of_int (length' b)))\<rparr>)
       (boats m) \<and>
   monthlyUpdate \<lparr>boats = [big_brother]\<rparr> = \<lparr>boats = [big_brother\<lparr>amountOwed := Finite False 1450\<rparr>]\<rparr>"
proof
  have "monthly_charge b = dmul (double_of_rat (spec_rate (locType b))) (double_of_int (length' b))" for b
    by (cases "locType b")
      (simp_all add: monthly_charge_def spec_rate_def MONTH_SLIP_def MONTH_LAND_def
        MONTH_TRAILOR_def MONTH_STORAGE_def)
  then show "boats (monthlyUpdate m) =
     map (\<lambda>b. b\<lparr>amountOwed :=
            dadd (amountOwed b) (dmul (double_of_rat (spec_rate (locType b))) (double_of_int (length' b)))\<rparr>)
       (boats m)"
    by (simp add: monthlyUpdate_def)
next
  have ch: "monthly_charge big_brother = Finite False 250"
    by (simp add: monthly_charge_def big_brother_def MONTH_SLIP_val double_of_int_def
        round_double_def round_mag_250)
  have "dadd (Finite False 1200) (Finite False 250) = Finite False 1450"
    by (simp add: signed_val_def double_of_rat_def round_double_def round_mag_1450)
  then show "monthlyUpdate \<lparr>boats = [big_brother]\<rparr> =
      \<lparr>boats = [big_brother\<lparr>amountOwed := Finite False 1450\<rparr>]\<rparr>"
    using ch by (simp add: monthlyUpdate_def) (simp add: big_brother_def)
qed

section \<open>Negative payments\<close>

text \<open>
  C10 as stated (a negative payment strictly increases the balance) fails: with a balance
  of \<open>10^16\<close> and a payment of \<open>-0.5\<close> the payment is accepted and the balance is
  unchanged, since \<open>10^16 + 0.5\<close> rounds back to \<open>10^16\<close>.
\<close>

theorem negative_payment_absorbed:
  "is_double (Finite False (10000000000000000)) \<and> is_double (Finite True (1 / 2)) \<and>
   dle dzero (amountOwed rich_boat) \<and> dlt (Finite True (1 / 2)) dzero \<and>
   acceptPayment \<lparr>boats = [rich_boat]\<rparr> (Some ''leviathan'') (Some (Finite True (1 / 2)))
     = (Done, \<lparr>boats = [rich_boat]\<rparr>)"
proof -
  note h = round_mag_half
  have fm: "findBoatIndex \<lparr>boats = [rich_boat]\<rparr> (chop_newline (cstr ''leviathan'')) = 0"
    by (simp add: findBoatIndex_def rich_boat_def chop_newline_def cstr_def cic_simps)
  have sub: "dsub (Finite False (10000000000000000)) (Finite True (1 / 2)) = Finite False (10000000000000000)"
    using round_mag_1e16_half
    by (simp add: dsub_def signed_val_def double_of_rat_def round_double_def)
  have "acceptPayment \<lparr>boats = [rich_boat]\<rparr> (Some ''leviathan'') (Some (Finite True (1 / 2)))
     = (Done, \<lparr>boats = [rich_boat]\<rparr>)"
    unfolding acceptPayment_def using fm sub
    by (simp add: Let_def dgt_def rich_boat_def signed_val_def)
  then show ?thesis
    by (simp add: is_double_def round_mag_1e16 h dle_def dzero_def rich_boat_def signed_val_def)
qed

text \<open>
  C10, amended. \<open>acceptPayment\<close> never checks the sign of the payment: for a stored
  balance that is not negative and a payment below zero, the payment is accepted (the
  overpayment test cannot fire), the new balance is the double difference
  balance - payment, and it is never below the old balance.
\<close>

theorem negative_payment_accepted:
  assumes "first_match (boats m) (chop_newline (cstr buf)) i"
    and "is_double (amountOwed (boats m ! i))"
    and "dle dzero (amountOwed (boats m ! i))"
    and "dlt amount dzero"
  shows "acceptPayment m (Some buf) (Some amount) =
           (Done, set_owed m i (dsub (amountOwed (boats m ! i)) amount)) \<and>
         dle (amountOwed (boats m ! i)) (dsub (amountOwed (boats m ! i)) amount)"
proof
  have "\<not> dgt amount (amountOwed (boats m ! i))"
    using assms(3,4) by (rule negative_not_gt)
  then show "acceptPayment m (Some buf) (Some amount) =
           (Done, set_owed m i (dsub (amountOwed (boats m ! i)) amount))"
    using assms(1)
    by (simp add: acceptPayment_def findBoatIndex_first_match set_owed_def Let_def)
next
  show "dle (amountOwed (boats m ! i)) (dsub (amountOwed (boats m ! i)) amount)"
    using assms(2-4) by (rule dsub_negative_ge)
qed

theorem negative_payment_accepted_witness:
  "acceptPayment \<lparr>boats = [big_brother]\<rparr> (Some ''BIG BROTHER'') (Some (Finite True 50)) =
     (Done, \<lparr>boats = [big_brother\<lparr>amountOwed := Finite False 1250\<rparr>]\<rparr>) \<and>
   dle (Finite False 1200) (Finite False 1250)"
proof -
  have fm: "first_match (boats \<lparr>boats = [big_brother]\<rparr>) (chop_newline (cstr ''BIG BROTHER'')) 0"
    by (simp add: first_match_def no_match_def big_brother_def chop_newline_def cstr_def cic_simps)
  have ow: "amountOwed (boats \<lparr>boats = [big_brother]\<rparr> ! 0) = Finite False 1200"
    by (simp add: big_brother_def)
  have d: "is_double (amountOwed (boats \<lparr>boats = [big_brother]\<rparr> ! 0))"
    unfolding ow by (simp add: is_double_def round_mag_1200)
  have z: "dle dzero (amountOwed (boats \<lparr>boats = [big_brother]\<rparr> ! 0))"
    unfolding ow by (simp add: dle_def dzero_def signed_val_def)
  have n: "dlt (Finite True 50) dzero"
    by (simp add: dzero_def signed_val_def)
  have sub: "dsub (Finite False 1200) (Finite True 50) = Finite False 1250"
    by (simp add: dsub_def signed_val_def double_of_rat_def round_double_def round_mag_1250)
  show ?thesis
    using negative_payment_accepted [OF fm d z n] unfolding ow sub
    by (simp add: set_owed_def)
qed

section \<open>The comparison is the lexicographic order of the folded names\<close>

lemma cstr_Nil: "cstr [] = []"
  by (simp add: cstr_def)

lemma cstr_Cons: "cstr (x # xs) = (if x = CHR 0x00 then [] else x # cstr xs)"
  by (simp add: cstr_def)

lemma uchar_lt_256: "uchar c < 256"
  by (simp add: uchar_def)

lemma uchar_eq_0: "uchar c = 0 \<longleftrightarrow> c = CHR 0x00"
proof
  assume "uchar c = 0"
  then have "of_char c = (of_char (CHR 0x00) :: nat)" by (simp add: uchar_def)
  then show "c = CHR 0x00" by (simp only: of_char_eq_iff)
qed (simp add: uchar_def)

lemma uchar_tolower_0: "uchar (tolower c) = 0 \<longleftrightarrow> c = CHR 0x00"
proof (cases "65 \<le> uchar c \<and> uchar c \<le> 90")
  case True
  then have "uchar (tolower c) = uchar c + 32"
    by (simp add: tolower_def) (simp add: uchar_def)
  with True show ?thesis by (auto simp: uchar_eq_0 [symmetric])
next
  case False
  then show ?thesis by (auto simp: tolower_def uchar_eq_0)
qed

lemma uchar_tolower_NUL: "uchar (tolower CHR 0x00) = 0"
  by (simp add: uchar_tolower_0)

lemma fold_key_Nil: "fold_key [] = []"
  by (simp add: fold_key_def cstr_Nil)

lemma fold_key_Cons:
  "fold_key (x # xs) = (if x = CHR 0x00 then [] else uchar (tolower x) # fold_key xs)"
  by (simp add: fold_key_def cstr_Cons)

lemma cic_char:
  "caseInsensitiveCompare a b =
     (if fold_key a < fold_key b then - 1 else if fold_key b < fold_key a then 1 else 0)"
proof (induction a arbitrary: b)
  case Nil
  show ?case
    by (cases b) (auto simp: cic_Nil_Nil cic_Nil_Cons fold_key_Nil fold_key_Cons uchar_tolower_0)
next
  case (Cons x xs)
  show ?case
  proof (cases b)
    case Nil
    then show ?thesis
      by (auto simp: cic_Cons_Nil fold_key_Nil fold_key_Cons uchar_tolower_0)
  next
    case (Cons y ys)
    show ?thesis
      unfolding Cons cic_Cons_Cons fold_key_Cons using Cons.IH [of ys]
      by (auto simp: uchar_tolower_0 uchar_tolower_NUL)
  qed
qed

lemma cic_le_iff: "caseInsensitiveCompare a b \<le> 0 \<longleftrightarrow> fold_key a \<le> fold_key b"
  by (auto simp: cic_char)

lemma cic_eq_iff: "caseInsensitiveCompare a b = 0 \<longleftrightarrow> fold_key a = fold_key b"
  by (auto simp: cic_char)

lemma cmp_le_iff: "boatCompareByName a b \<le> 0 \<longleftrightarrow> name_le a b"
  by (simp add: boatCompareByName_def cic_le_iff name_le_def)

lemma fold_key_eq_iff: "fold_key a = fold_key b \<longleftrightarrow> map tolower (cstr a) = map tolower (cstr b)"
proof -
  have "inj uchar" by (auto simp: inj_on_def uchar_def)
  then have "inj (map uchar)" by simp
  then have a: "map uchar u = map uchar v \<longleftrightarrow> u = v" for u v by (auto dest: injD)
  have b: "fold_key s = map uchar (map tolower (cstr s))" for s by (simp add: fold_key_def)
  show ?thesis by (simp only: a b)
qed

lemma set_insert_by: "set (insert_by cmp x ys) = insert x (set ys)"
  by (induction ys) auto

lemma mset_insert_by: "mset (insert_by cmp x ys) = add_mset x (mset ys)"
  by (induction ys) auto

lemma mset_isort_by: "mset (isort_by cmp xs) = mset xs"
  by (induction xs) (auto simp: isort_by_def mset_insert_by)

lemma sorted_insert_by_name:
  "sorted_wrt name_le ys \<Longrightarrow> sorted_wrt name_le (insert_by boatCompareByName x ys)"
  by (induction ys) (auto simp: set_insert_by cmp_le_iff name_le_def)

lemma sorted_isort_by_name: "sorted_wrt name_le (isort_by boatCompareByName xs)"
proof (induction xs)
  case Nil
  show ?case by (simp add: isort_by_def)
next
  case (Cons x xs)
  then show ?case using sorted_insert_by_name [of "isort_by boatCompareByName xs" x]
    by (simp add: isort_by_def)
qed

lemma sorts_by_isort: "sorts_by boatCompareByName (isort_by boatCompareByName)"
  by (simp add: sorts_by_def mset_isort_by sorted_isort_by_name cmp_le_iff [abs_def])

lemma sorts_by_sorted:
  "sorts_by boatCompareByName f \<Longrightarrow> sorted_wrt name_le (f xs)"
  by (simp add: sorts_by_def cmp_le_iff [abs_def])

lemma sorts_by_mset: "sorts_by cmp f \<Longrightarrow> mset (f xs) = mset xs"
  by (simp add: sorts_by_def)

lemma sorts_by_length: "sorts_by cmp f \<Longrightarrow> length (f xs) = length xs"
  by (metis sorts_by_mset size_mset)

lemma sorts_by_Nil: "sorts_by cmp f \<Longrightarrow> f [] = []"
  using sorts_by_mset [of cmp f "[]"] by simp

lemma sorts_by_single: "sorts_by cmp f \<Longrightarrow> f [x] = [x]"
  using sorts_by_mset [of cmp f "[x]"] by (simp add: mset_single_iff_right)

section \<open>Evaluating the library conversions\<close>

lemmas scan_simps = sscanf_boat_def skip_space_def isspace_def isdigit_def uchar_def not_comma_def
  expect_comma_def scan_int_def scan_double_def scan_exp_def has_sign_def drop_sign_def peek_def
  lower_prefix_def tolower_def decimal_def digit_val_def clamp_long_def Let_def cstr_def
  chop_newline_def

lemma round_double_1200: "round_double False 1200 = Finite False 1200"
  by (simp add: round_double_def round_mag_1200)

lemma round_double_0: "round_double s 0 = Finite s 0"
  by (simp add: round_double_def round_mag_0)

lemma read_line_nl:
  "length l < n \<Longrightarrow> CHR 0x0A \<notin> set l \<Longrightarrow> read_line n (l @ CHR 0x0A # rest) = (l @ [CHR 0x0A], rest)"
  by (induction n "l @ CHR 0x0A # rest" arbitrary: l rule: read_line.induct)
    (auto simp: Cons_eq_append_conv)

lemma fgets_line:
  "length l < 511 \<Longrightarrow> CHR 0x0A \<notin> set l \<Longrightarrow> fgets 512 (l @ CHR 0x0A # rest) = Some (l @ [CHR 0x0A], rest)"
  by (simp add: fgets_def read_line_nl)

section \<open>Lookup and removal\<close>

lemma cic_same: "caseInsensitiveCompare a b = 0 \<longleftrightarrow> same_ignoring_case a b"
  by (simp add: cic_eq_iff fold_key_eq_iff same_ignoring_case_def)

lemma no_match_iff: "no_match bs nm \<longleftrightarrow> (\<forall>b \<in> set bs. \<not> same_ignoring_case (name b) nm)"
  by (simp add: no_match_def list_all_iff cic_same)

lemma find_from_bounds:
  "findBoatIndex_from i bs nm = - 1 \<or> (i \<le> findBoatIndex_from i bs nm \<and> findBoatIndex_from i bs nm < i + int (length bs))"
proof (induction bs arbitrary: i)
  case Nil
  show ?case by simp
next
  case (Cons b bs)
  show ?case using Cons [of "i + 1"] by auto
qed

lemma find_from_found:
  "0 \<le> i \<Longrightarrow> findBoatIndex_from i bs nm \<noteq> - 1 \<Longrightarrow>
     first_match bs nm (nat (findBoatIndex_from i bs nm - i))"
proof (induction bs arbitrary: i)
  case Nil
  then show ?case by simp
next
  case (Cons b bs)
  show ?case
  proof (cases "caseInsensitiveCompare (name b) nm = 0")
    case True
    then show ?thesis by (simp add: first_match_def no_match_def)
  next
    case False
    let ?r = "findBoatIndex_from (i + 1) bs nm"
    from False Cons.prems have r: "?r \<noteq> - 1" by simp
    with find_from_bounds [of "i + 1" bs nm] have ge: "i + 1 \<le> ?r" by auto
    from Cons.IH [of "i + 1"] r Cons.prems have fm: "first_match bs nm (nat (?r - (i + 1)))" by simp
    have "nat (?r - i) = Suc (nat (?r - (i + 1)))" using ge by simp
    then show ?thesis using fm False
      by (simp add: first_match_def no_match_def)
  qed
qed

lemma findBoatIndex_found:
  "findBoatIndex m nm \<noteq> - 1 \<Longrightarrow> first_match (boats m) nm (nat (findBoatIndex m nm))"
  using find_from_found [of 0 "boats m" nm] by (simp add: findBoatIndex_def)

lemma findBoatIndex_nonneg: "findBoatIndex m nm \<noteq> - 1 \<Longrightarrow> 0 \<le> findBoatIndex m nm"
  using find_from_bounds [of 0 "boats m" nm] by (auto simp: findBoatIndex_def)

lemma first_match_not_no_match: "first_match bs nm i \<Longrightarrow> \<not> no_match bs nm"
  by (auto simp: first_match_def no_match_def list_all_iff)

lemma match_cases: "no_match bs nm \<or> (\<exists>i. first_match bs nm i)"
proof (induction bs)
  case Nil
  show ?case by (simp add: no_match_def)
next
  case (Cons b bs)
  show ?case
  proof (cases "caseInsensitiveCompare (name b) nm = 0")
    case True
    then have "first_match (b # bs) nm 0" by (simp add: first_match_def no_match_def)
    then show ?thesis by blast
  next
    case False
    from Cons show ?thesis
    proof
      assume "no_match bs nm"
      with False show ?thesis by (simp add: no_match_def)
    next
      assume "\<exists>i. first_match bs nm i"
      then obtain i where "first_match bs nm i" ..
      with False have "first_match (b # bs) nm (Suc i)" by (simp add: first_match_def no_match_def)
      then show ?thesis by blast
    qed
  qed
qed

lemma findBoatIndex_minus1_iff: "findBoatIndex m nm = - 1 \<longleftrightarrow> no_match (boats m) nm"
proof
  assume f: "findBoatIndex m nm = - 1"
  show "no_match (boats m) nm"
  proof (rule ccontr)
    assume "\<not> no_match (boats m) nm"
    with match_cases [of "boats m" nm] obtain i where "first_match (boats m) nm i" by blast
    then have "findBoatIndex m nm = int i" by (rule findBoatIndex_first_match)
    with f show False by simp
  qed
qed (rule findBoatIndex_no_match)

lemma first_match_before:
  assumes "first_match bs nm i" "j < i"
  shows "\<not> same_ignoring_case (name (bs ! j)) nm"
proof -
  from assms have il: "i < length bs" and nm: "no_match (take i bs) nm"
    by (simp_all add: first_match_def)
  have "take i bs ! j \<in> set (take i bs)" using assms(2) il by (intro nth_mem) simp
  moreover have "take i bs ! j = bs ! j" using assms(2) by simp
  ultimately show ?thesis using nm by (auto simp: no_match_iff)
qed

lemma shift_fold:
  "i < length xs \<Longrightarrow>
     fold (\<lambda>i xs. xs[i := xs ! (i + 1)]) [i..<length xs - 1] xs = take i xs @ drop (Suc i) xs @ [last xs]"
proof (induction "length xs - 1 - i" arbitrary: i xs)
  case 0
  then have i: "i = length xs - 1" by simp
  then have ne: "xs \<noteq> []" using "0.prems" by auto
  have "[i..<length xs - 1] = []" using i by simp
  moreover have "take i xs = butlast xs" using i by (simp add: butlast_conv_take)
  moreover have "drop (Suc i) xs = []" using i ne by simp
  ultimately show ?case using ne by simp
next
  case (Suc k)
  then have lt: "Suc i < length xs" by simp
  let ?ys = "xs[i := xs ! (i + 1)]"
  have rng: "[i..<length xs - 1] = i # [Suc i..<length xs - 1]"
    using lt by (simp add: upt_conv_Cons)
  have k: "k = length ?ys - 1 - Suc i" using Suc.hyps(2) by simp
  have "fold (\<lambda>i xs. xs[i := xs ! (i + 1)]) [Suc i..<length ?ys - 1] ?ys
          = take (Suc i) ?ys @ drop (Suc (Suc i)) ?ys @ [last ?ys]"
    using Suc.hyps(1) [OF k] lt by simp
  moreover have "take (Suc i) ?ys = take i xs @ [xs ! Suc i]"
    using lt by (simp add: take_Suc_conv_app_nth)
  moreover have "drop (Suc (Suc i)) ?ys = drop (Suc (Suc i)) xs" by simp
  moreover have "last ?ys = last xs"
    using lt by (cases "xs = []") (auto simp: last_list_update)
  moreover have "xs ! Suc i # drop (Suc (Suc i)) xs = drop (Suc i) xs"
    using lt by (simp add: Cons_nth_drop_Suc)
  ultimately show ?case unfolding rng by simp
qed

lemma shift_down_eq: "i < length xs \<Longrightarrow> shift_down i xs = take i xs @ drop (Suc i) xs"
  by (simp only: shift_down_def shift_fold) (simp add: butlast_append)

lemma removeBoat_first_match:
  assumes "first_match (boats m) (chop_newline (cstr buf)) i"
  shows "removeBoat qsort m (Some buf) =
           (Done, sortBoatsByName qsort (m\<lparr>boats := take i (boats m) @ drop (Suc i) (boats m)\<rparr>))"
proof -
  have "i < length (boats m)" using assms by (simp add: first_match_def)
  then show ?thesis using assms
    by (simp add: removeBoat_def findBoatIndex_first_match shift_down_eq Let_def)
qed

text \<open>
  C6. \<open>findBoatIndex\<close> returns -1 exactly when no record's name equals the given name
  ignoring letter case; otherwise it returns the index of the first record, in the
  store's current order, whose name does. \<open>removeBoat\<close> removes the record at that first
  match and keeps the others in order before sorting; removing "BIG BROTHER" from a store
  holding "Big Brother" succeeds and leaves the store empty.
\<close>

theorem findBoatIndex_ignores_case:
  "(findBoatIndex m nm = - 1 \<longleftrightarrow> (\<forall>b \<in> set (boats m). \<not> same_ignoring_case (name b) nm)) \<and>
   (findBoatIndex m nm \<noteq> - 1 \<longrightarrow>
      0 \<le> findBoatIndex m nm \<and> nat (findBoatIndex m nm) < length (boats m) \<and>
      same_ignoring_case (name (boats m ! nat (findBoatIndex m nm))) nm \<and>
      (\<forall>j < nat (findBoatIndex m nm). \<not> same_ignoring_case (name (boats m ! j)) nm)) \<and>
   (first_match (boats m) (chop_newline (cstr buf)) i \<longrightarrow>
      removeBoat qsort m (Some buf) =
        (Done, sortBoatsByName qsort (m\<lparr>boats := take i (boats m) @ drop (Suc i) (boats m)\<rparr>)))"
proof (intro conjI impI allI)
  show "findBoatIndex m nm = - 1 \<longleftrightarrow> (\<forall>b \<in> set (boats m). \<not> same_ignoring_case (name b) nm)"
    by (simp add: findBoatIndex_minus1_iff no_match_iff)
next
  assume f: "findBoatIndex m nm \<noteq> - 1"
  note fm = findBoatIndex_found [OF f]
  show "0 \<le> findBoatIndex m nm" using f by (rule findBoatIndex_nonneg)
  show "nat (findBoatIndex m nm) < length (boats m)" using fm by (simp add: first_match_def)
  show "same_ignoring_case (name (boats m ! nat (findBoatIndex m nm))) nm"
    using fm by (simp add: first_match_def cic_same)
  fix j
  assume "j < nat (findBoatIndex m nm)"
  with fm show "\<not> same_ignoring_case (name (boats m ! j)) nm" by (rule first_match_before)
next
  assume "first_match (boats m) (chop_newline (cstr buf)) i"
  then show "removeBoat qsort m (Some buf) =
        (Done, sortBoatsByName qsort (m\<lparr>boats := take i (boats m) @ drop (Suc i) (boats m)\<rparr>))"
    by (rule removeBoat_first_match)
qed

theorem findBoatIndex_ignores_case_witness:
  "findBoatIndex \<lparr>boats = [big_brother]\<rparr> ''BIG BROTHER'' = 0 \<and>
   same_ignoring_case ''Big Brother'' ''BIG BROTHER'' \<and>
   removeBoat isort_by \<lparr>boats = [big_brother]\<rparr> (Some (''BIG BROTHER'' @ [CHR 0x0A]))
     = (Done, \<lparr>boats = []\<rparr>)"
proof -
  have f: "findBoatIndex \<lparr>boats = [big_brother]\<rparr> ''BIG BROTHER'' = 0"
    by (simp add: findBoatIndex_def big_brother_def cic_simps)
  have fm: "first_match (boats \<lparr>boats = [big_brother]\<rparr>)
      (chop_newline (cstr (''BIG BROTHER'' @ [CHR 0x0A]))) 0"
    by (simp add: first_match_def no_match_def big_brother_def chop_newline_def cstr_def cic_simps)
  show ?thesis
    using findBoatIndex_ignores_case [of "\<lparr>boats = [big_brother]\<rparr>" "''BIG BROTHER''"
        "''BIG BROTHER'' @ [CHR 0x0A]" 0 isort_by] f fm
    by (simp add: sortBoatsByName_def isort_by_def) (simp add: big_brother_def)
qed

section \<open>Adding, removing and the sorted order\<close>

lemma createBoat_True:
  "createBoat True nm len lt det owed =
     Some \<lparr>name = take 127 (cstr nm), length' = len, locType = lt,
            detail = (case lt of
                        SLIP \<Rightarrow> slipNumber (atoi det)
                      | LAND \<Rightarrow> bayLetter (peek det)
                      | TRAILOR \<Rightarrow> licenseTag (take 31 (cstr det))
                      | STORAGE \<Rightarrow> storageNum (atoi det)),
            amountOwed = owed\<rparr>"
  by (simp add: createBoat_def MAX_NAME_def)

lemma addBoat_Fields:
  assumes "sscanf_boat (chop_newline (cstr buf)) = Fields nm len loc det owed"
  shows "addBoat qsort avail m (Some buf) =
           (if 120 \<le> length (boats m) then (ArrayFull, m)
            else case createBoat avail nm len (parseLocationType loc) det owed of
                   None \<Rightarrow> (AllocationError, m)
                 | Some b \<Rightarrow> (Done, sortBoatsByName qsort (m\<lparr>boats := boats m @ [b]\<rparr>)))"
  using assms by (simp add: addBoat_def MAX_BOATS_def numBoats_def)

lemma addBoat_Done:
  assumes "fst (addBoat qsort avail m line_in) = Done"
  shows "\<exists>b. snd (addBoat qsort avail m line_in) = sortBoatsByName qsort (m\<lparr>boats := boats m @ [b]\<rparr>)"
  using assms
  by (auto simp: addBoat_def split: option.splits scanned.splits if_splits)

lemma removeBoat_Done:
  assumes "fst (removeBoat qsort m name_in) = Done"
  shows "\<exists>i. i < length (boats m) \<and>
           snd (removeBoat qsort m name_in) =
             sortBoatsByName qsort (m\<lparr>boats := take i (boats m) @ drop (Suc i) (boats m)\<rparr>)"
proof (cases name_in)
  case None
  with assms show ?thesis by (simp add: removeBoat_def)
next
  case (Some buf)
  let ?nm = "chop_newline (cstr buf)"
  from assms Some have "findBoatIndex m ?nm \<noteq> - 1"
    by (auto simp: removeBoat_def Let_def split: if_splits)
  then have fm: "first_match (boats m) ?nm (nat (findBoatIndex m ?nm))"
    by (rule findBoatIndex_found)
  then have "nat (findBoatIndex m ?nm) < length (boats m)" by (simp add: first_match_def)
  then show ?thesis using removeBoat_first_match [OF fm, of qsort] Some by auto
qed

lemma mset_remove_nth:
  "i < length xs \<Longrightarrow> add_mset (xs ! i) (mset (take i xs @ drop (Suc i) xs)) = mset xs"
proof -
  assume "i < length xs"
  then have "xs = take i xs @ xs ! i # drop (Suc i) xs" by (rule id_take_nth_drop)
  then have "mset xs = mset (take i xs @ xs ! i # drop (Suc i) xs)" by simp
  then show ?thesis by simp
qed

lemma sortBoatsByName_boats: "boats (sortBoatsByName qsort m) = qsort boatCompareByName (boats m)"
  by (simp add: sortBoatsByName_def)

text \<open>
  C5. For an input line whose five fields are extracted: \<open>addBoat\<close> reports "array is
  full" and returns the store as it was exactly when the store already holds 120
  records; below that bound (and with memory available) it succeeds and stores the new
  record, whatever its name, also when an existing record has the same name up to case;
  after success the array has been sorted again and holds one record more.
\<close>

theorem addBoat_capacity:
  assumes "sscanf_boat (chop_newline (cstr buf)) = Fields nm len loc det owed"
  shows "(120 \<le> length (boats m) \<longrightarrow> addBoat qsort avail m (Some buf) = (ArrayFull, m)) \<and>
         (length (boats m) < 120 \<longrightarrow>
            fst (addBoat qsort avail m (Some buf)) \<noteq> ArrayFull \<and>
            (\<exists>b. createBoat True nm len (parseLocationType loc) det owed = Some b \<and>
                 addBoat qsort True m (Some buf) =
                   (Done, sortBoatsByName qsort (m\<lparr>boats := boats m @ [b]\<rparr>)))) \<and>
         (length (boats m) < 120 \<longrightarrow> sorts_by boatCompareByName (qsort boatCompareByName) \<longrightarrow>
            sorted_wrt name_le (boats (snd (addBoat qsort True m (Some buf)))) \<and>
            length (boats (snd (addBoat qsort True m (Some buf)))) = Suc (length (boats m)))"
proof (intro conjI impI)
  assume "120 \<le> length (boats m)"
  then show "addBoat qsort avail m (Some buf) = (ArrayFull, m)"
    by (simp add: addBoat_Fields [OF assms])
next
  assume lt: "length (boats m) < 120"
  then show "fst (addBoat qsort avail m (Some buf)) \<noteq> ArrayFull"
    by (simp add: addBoat_Fields [OF assms] split: option.splits)
  from lt show "\<exists>b. createBoat True nm len (parseLocationType loc) det owed = Some b \<and>
                 addBoat qsort True m (Some buf) =
                   (Done, sortBoatsByName qsort (m\<lparr>boats := boats m @ [b]\<rparr>))"
    by (simp add: addBoat_Fields [OF assms] createBoat_True)
next
  assume lt: "length (boats m) < 120" and sb: "sorts_by boatCompareByName (qsort boatCompareByName)"
  from lt have "fst (addBoat qsort True m (Some buf)) = Done"
    by (simp add: addBoat_Fields [OF assms] createBoat_True)
  from addBoat_Done [OF this] obtain b where
    b: "snd (addBoat qsort True m (Some buf)) = sortBoatsByName qsort (m\<lparr>boats := boats m @ [b]\<rparr>)" ..
  show "sorted_wrt name_le (boats (snd (addBoat qsort True m (Some buf))))"
    unfolding b sortBoatsByName_boats using sb by (rule sorts_by_sorted)
  show "length (boats (snd (addBoat qsort True m (Some buf)))) = Suc (length (boats m))"
    unfolding b sortBoatsByName_boats by (simp add: sorts_by_length [OF sb])
qed

theorem addBoat_capacity_witness:
  "addBoat isort_by True \<lparr>boats = replicate 120 big_brother\<rparr> (Some ''big brother,30,land,C,0.00'')
     = (ArrayFull, \<lparr>boats = replicate 120 big_brother\<rparr>) \<and>
   addBoat isort_by True \<lparr>boats = [big_brother]\<rparr> (Some ''big brother,30,land,C,0.00'')
     = (Done, \<lparr>boats = [big_brother, little_brother]\<rparr>) \<and>
   sorted_wrt name_le [big_brother, little_brother]"
proof -
  have sc: "sscanf_boat (chop_newline (cstr ''big brother,30,land,C,0.00'')) =
      Fields ''big brother'' 30 ''land'' ''C'' (Finite False 0)"
    by (simp add: scan_simps round_double_0)
  have cb: "createBoat True ''big brother'' 30 (parseLocationType ''land'') ''C'' (Finite False 0)
      = Some little_brother"
    by (simp add: createBoat_True parseLocationType_def cstr_def tolower_def uchar_def peek_def
        little_brother_def)
  have so: "isort_by boatCompareByName [big_brother, little_brother] = [big_brother, little_brother]"
    by (simp add: isort_by_def boatCompareByName_def big_brother_def little_brother_def cic_simps)
  note w1 = addBoat_capacity [OF sc, of "\<lparr>boats = replicate 120 big_brother\<rparr>" isort_by True]
  note w2 = addBoat_capacity [OF sc, of "\<lparr>boats = [big_brother]\<rparr>" isort_by True]
  from w1 have a: "addBoat isort_by True \<lparr>boats = replicate 120 big_brother\<rparr>
      (Some ''big brother,30,land,C,0.00'') = (ArrayFull, \<lparr>boats = replicate 120 big_brother\<rparr>)"
    by simp
  from w2 cb have b: "addBoat isort_by True \<lparr>boats = [big_brother]\<rparr>
      (Some ''big brother,30,land,C,0.00'') = (Done, \<lparr>boats = [big_brother, little_brother]\<rparr>)"
    by (simp add: sortBoatsByName_def so)
  from w2 sorts_by_isort have "sorted_wrt name_le
      (boats (snd (addBoat isort_by True \<lparr>boats = [big_brother]\<rparr> (Some ''big brother,30,land,C,0.00''))))"
    by simp
  then have c: "sorted_wrt name_le [big_brother, little_brother]" unfolding b by simp
  from a b c show ?thesis by blast
qed

section \<open>Loading\<close>

lemma load_loop_Nil: "load_loop av k m [] = Some m"
  by (subst load_loop.simps) (simp add: fgets_def)

lemma load_loop_fgets:
  "fgets 512 inp = Some (line, rest) \<Longrightarrow>
     load_loop av k m inp =
       (case load_line (av k) m line of None \<Rightarrow> None | Some m' \<Rightarrow> load_loop av (k + 1) m' rest)"
  by (subst load_loop.simps) simp

lemma load_loop_line:
  "length l < 511 \<Longrightarrow> CHR 0x0A \<notin> set l \<Longrightarrow>
     load_loop av k m (l @ CHR 0x0A # rest) =
       (case load_line (av k) m (l @ [CHR 0x0A]) of
          None \<Rightarrow> None
        | Some m' \<Rightarrow> load_loop av (k + 1) m' rest)"
  by (rule load_loop_fgets) (rule fgets_line)

lemma load_line_Fields:
  "sscanf_boat (cstr line) = Fields nm len loc det owed \<Longrightarrow>
     load_line True m line =
       Some (if length (boats m) < 120
             then m\<lparr>boats := boats m @ [the (createBoat True nm len (parseLocationType loc) det owed)]\<rparr>
             else m)"
  by (simp add: load_line_def createBoat_True numBoats_def MAX_BOATS_def)

text \<open>
  C7. While loading, a line buffer from which \<open>sscanf\<close> extracts fewer than five fields
  leaves the store as it is and the loop goes on with the rest of the file. A file with
  one well-formed line and one line of three fields loads as a store of exactly one
  record.
\<close>

theorem short_line_skipped:
  assumes "fgets 512 inp = Some (line, rest)" and "sscanf_boat (cstr line) = Count k"
  shows "load_line a m line = Some m \<and> load_loop avail i m inp = load_loop avail (i + 1) m rest"
proof
  show l: "load_line a m line = Some m" for a using assms(2) by (simp add: load_line_def)
  show "load_loop avail i m inp = load_loop avail (i + 1) m rest"
    by (simp add: load_loop_fgets [OF assms(1)] l)
qed

theorem short_line_skipped_witness:
  "loadFromCSV isort_by (\<lambda>k. True) empty_manager (Some two_line_file) = Some \<lparr>boats = [big_brother]\<rparr>"
proof -
  let ?l2 = "''Foo,10,slip'' @ [CHR 0x0A]"
  have f2: "fgets 512 (''Foo,10,slip'' @ CHR 0x0A # []) = Some (?l2, [])"
    by (rule fgets_line) simp_all
  have s2: "sscanf_boat (cstr ?l2) = Count 3"
    by (simp add: scan_simps)
  have s1: "sscanf_boat (cstr (''Big Brother,20,slip,27,1200.00'' @ [CHR 0x0A])) =
      Fields ''Big Brother'' 20 ''slip'' ''27'' (Finite False 1200)"
    by (simp add: scan_simps round_double_1200)
  have cb: "createBoat True ''Big Brother'' 20 (parseLocationType ''slip'') ''27'' (Finite False 1200)
      = Some big_brother"
    by (simp add: createBoat_True parseLocationType_def atoi_def scan_simps big_brother_def)
  have l1: "load_line True empty_manager (''Big Brother,20,slip,27,1200.00'' @ [CHR 0x0A])
      = Some \<lparr>boats = [big_brother]\<rparr>"
    by (simp only: load_line_Fields [OF s1]) (simp add: cb empty_manager_def)
  have "load_loop (\<lambda>k. True) 0 empty_manager two_line_file =
      (case load_line True empty_manager (''Big Brother,20,slip,27,1200.00'' @ [CHR 0x0A]) of
         None \<Rightarrow> None
       | Some m' \<Rightarrow> load_loop (\<lambda>k. True) (0 + 1) m' (''Foo,10,slip'' @ CHR 0x0A # []))"
    unfolding two_line_file_def by (rule load_loop_line) simp_all
  also have "\<dots> = load_loop (\<lambda>k. True) (0 + 1) \<lparr>boats = [big_brother]\<rparr> (''Foo,10,slip'' @ CHR 0x0A # [])"
    by (simp only: l1 option.case)
  also have "\<dots> = load_loop (\<lambda>k. True) (0 + 1 + 1) \<lparr>boats = [big_brother]\<rparr> []"
    using short_line_skipped [OF f2 s2, of True "\<lparr>boats = [big_brother]\<rparr>" "\<lambda>k. True" "0 + 1"]
    by (rule conjunct2)
  also have "\<dots> = Some \<lparr>boats = [big_brother]\<rparr>" by (rule load_loop_Nil)
  finally show ?thesis
    by (simp add: loadFromCSV_def sortBoatsByName_def isort_by_def)
qed

text \<open>
  C8. A location word that is none of slip, land, trailor, storage (ignoring case) is
  read as \<open>SLIP\<close>. Whenever the five fields of a line are extracted, a record is made
  whose kind is the one \<open>parseLocationType\<close> gives for the word, whatever the word is; the
  line "Foo,10,submarine,5,0.00" yields a slip record.
\<close>

theorem unknown_location_is_slip:
  "(map tolower (take 31 (cstr w)) \<notin> {''slip'', ''land'', ''trailor'', ''storage''} \<longrightarrow>
      parseLocationType w = SLIP) \<and>
   (sscanf_boat (cstr line) = Fields nm len loc det owed \<longrightarrow>
      (\<exists>b. createBoat True nm len (parseLocationType loc) det owed = Some b \<and>
           locType b = parseLocationType loc \<and>
           load_line True m line =
             Some (if length (boats m) < 120 then m\<lparr>boats := boats m @ [b]\<rparr> else m)))"
proof (intro conjI impI)
  assume "map tolower (take 31 (cstr w)) \<notin> {''slip'', ''land'', ''trailor'', ''storage''}"
  then show "parseLocationType w = SLIP" by (simp add: parseLocationType_def)
next
  assume f: "sscanf_boat (cstr line) = Fields nm len loc det owed"
  show "\<exists>b. createBoat True nm len (parseLocationType loc) det owed = Some b \<and>
           locType b = parseLocationType loc \<and>
           load_line True m line =
             Some (if length (boats m) < 120 then m\<lparr>boats := boats m @ [b]\<rparr> else m)"
    by (simp add: load_line_Fields [OF f] createBoat_True)
qed

theorem unknown_location_is_slip_witness:
  "parseLocationType ''submarine'' = SLIP \<and>
   load_line True empty_manager ''Foo,10,submarine,5,0.00'' = Some \<lparr>boats = [foo_boat]\<rparr>"
proof -
  have w: "map tolower (take 31 (cstr ''submarine'')) \<notin> {''slip'', ''land'', ''trailor'', ''storage''}"
    by (simp add: cstr_def tolower_def uchar_def)
  have s: "sscanf_boat (cstr ''Foo,10,submarine,5,0.00'') =
      Fields ''Foo'' 10 ''submarine'' ''5'' (Finite False 0)"
    by (simp add: scan_simps round_double_0)
  from unknown_location_is_slip [of "''submarine''" "''Foo,10,submarine,5,0.00''"
      "''Foo''" 10 "''submarine''" "''5''" "Finite False 0" empty_manager] w s
  have p: "parseLocationType ''submarine'' = SLIP"
    and "\<exists>b. createBoat True ''Foo'' 10 (parseLocationType ''submarine'') ''5'' (Finite False 0) = Some b \<and>
           locType b = parseLocationType ''submarine'' \<and>
           load_line True empty_manager ''Foo,10,submarine,5,0.00'' =
             Some (if length (boats empty_manager) < 120
                   then empty_manager\<lparr>boats := boats empty_manager @ [b]\<rparr> else empty_manager)"
    by blast+
  then obtain b where
    b: "createBoat True ''Foo'' 10 (parseLocationType ''submarine'') ''5'' (Finite False 0) = Some b"
    and l: "load_line True empty_manager ''Foo,10,submarine,5,0.00'' =
             Some (if length (boats empty_manager) < 120
                   then empty_manager\<lparr>boats := boats empty_manager @ [b]\<rparr> else empty_manager)"
    by blast
  from b have "b = foo_boat"
    by (simp add: p createBoat_True atoi_def scan_simps foo_boat_def)
  with l p show ?thesis by (simp add: empty_manager_def)
qed

text \<open>
  C9. \<open>createBoat\<close> (with memory available) always yields a record. Its detail is the
  integer \<open>atoi\<close> reads from the detail text for slip and storage, the first byte of the
  text for land, and the text cut to 31 bytes for trailor. Detail text with no digit
  after optional blanks and sign is read as 0.
\<close>

theorem createBoat_detail:
  "(\<exists>b. createBoat True nm len lt det owed = Some b \<and>
        detail b = (case lt of
                      SLIP \<Rightarrow> slipNumber (atoi det)
                    | LAND \<Rightarrow> bayLetter (peek det)
                    | TRAILOR \<Rightarrow> licenseTag (take 31 (cstr det))
                    | STORAGE \<Rightarrow> storageNum (atoi det))) \<and>
   (takeWhile isdigit (drop_sign (skip_space (cstr det))) = [] \<longrightarrow> atoi det = 0) \<and>
   length (take 31 (cstr det)) \<le> 31"
  by (simp add: createBoat_True atoi_def scan_int_def Let_def)

theorem createBoat_detail_witness:
  "createBoat True ''Foo'' 10 SLIP ''abc'' (Finite False 0) =
     Some \<lparr>name = ''Foo'', length' = 10, locType = SLIP, detail = slipNumber 0,
           amountOwed = Finite False 0\<rparr> \<and>
   atoi ''abc'' = 0 \<and> atoi ''27'' = 27"
proof -
  have n: "takeWhile isdigit (drop_sign (skip_space (cstr ''abc''))) = []"
    by (simp add: scan_simps)
  from createBoat_detail [of "''Foo''" 10 SLIP "''abc''" "Finite False 0"] n
  have z: "atoi ''abc'' = 0" by blast
  have "atoi ''27'' = 27" by (simp add: atoi_def scan_simps)
  with z show ?thesis by (simp add: createBoat_True cstr_def)
qed

section \<open>The sorted order after every mutation\<close>

lemma mset_merge_by: "mset (merge_by cmp xs ys) = mset xs + mset ys"
  by (induction cmp xs ys rule: merge_by.induct) auto

lemma set_merge_by: "set (merge_by cmp xs ys) = set xs \<union> set ys"
  by (induction cmp xs ys rule: merge_by.induct) auto

lemma name_le_total: "\<not> name_le a b \<Longrightarrow> name_le b a"
  by (simp add: name_le_def)

lemma name_le_trans: "name_le a b \<Longrightarrow> name_le b c \<Longrightarrow> name_le a c"
  by (simp add: name_le_def)

lemma sorted_merge_by_name:
  "sorted_wrt name_le xs \<Longrightarrow> sorted_wrt name_le ys \<Longrightarrow>
     sorted_wrt name_le (merge_by boatCompareByName xs ys)"
proof (induction boatCompareByName xs ys rule: merge_by.induct)
  case (1 ys)
  then show ?case by simp
next
  case (2 x xs)
  then show ?case by simp
next
  case (3 x xs y ys)
  show ?case
  proof (cases "boatCompareByName x y \<le> 0")
    case True
    then have xy: "name_le x y" by (simp add: cmp_le_iff)
    have "\<forall>z \<in> set ys. name_le x z" using "3.prems"(2) xy by (auto intro: name_le_trans)
    then show ?thesis using True 3 xy by (auto simp: set_merge_by)
  next
    case False
    then have yx: "name_le y x" by (simp add: cmp_le_iff name_le_total)
    have "\<forall>z \<in> set xs. name_le y z" using "3.prems"(1) yx by (auto intro: name_le_trans)
    then show ?thesis using False 3 yx by (auto simp: set_merge_by)
  qed
qed

lemma same_name_key: "same_ignoring_case (name b) (name x) \<longleftrightarrow> fold_key (name b) = fold_key (name x)"
  by (simp add: same_ignoring_case_def fold_key_eq_iff)

lemma filter_merge_by_name:
  "sorted_wrt name_le xs \<Longrightarrow>
     filter (\<lambda>b. fold_key (name b) = k) (merge_by boatCompareByName xs ys) =
     filter (\<lambda>b. fold_key (name b) = k) xs @ filter (\<lambda>b. fold_key (name b) = k) ys"
proof (induction boatCompareByName xs ys rule: merge_by.induct)
  case (1 ys)
  show ?case by simp
next
  case (2 x xs)
  show ?case by simp
next
  case (3 x xs y ys)
  show ?case
  proof (cases "boatCompareByName x y \<le> 0")
    case True
    with 3 show ?thesis by simp
  next
    case False
    then have lt: "fold_key (name y) < fold_key (name x)" by (simp add: cmp_le_iff name_le_def)
    have ih: "filter (\<lambda>b. fold_key (name b) = k) (merge_by boatCompareByName (x # xs) ys) =
        filter (\<lambda>b. fold_key (name b) = k) (x # xs) @ filter (\<lambda>b. fold_key (name b) = k) ys"
      using False 3 by simp
    show ?thesis
    proof (cases "fold_key (name y) = k")
      case True
      have "\<forall>z \<in> set (x # xs). k < fold_key (name z)"
        using "3.prems" lt True by (auto simp: name_le_def)
      then have "filter (\<lambda>b. fold_key (name b) = k) (x # xs) = []"
        by (auto simp: filter_empty_conv)
      then show ?thesis using False ih by simp
    next
      case no: False
      then show ?thesis using False ih by simp
    qed
  qed
qed

lemma glibc_qsort_mset: "mset (glibc_qsort cmp xs) = mset xs"
proof (induction cmp xs rule: glibc_qsort.induct)
  case (1 cmp xs)
  show ?case
  proof (cases "length xs \<le> 1")
    case True
    then show ?thesis by (subst glibc_qsort.simps) simp
  next
    case False
    have "mset (take (length xs div 2) xs) + mset (drop (length xs div 2) xs) = mset xs"
      by (metis append_take_drop_id mset_append)
    with False 1 show ?thesis by (subst glibc_qsort.simps) (simp add: mset_merge_by)
  qed
qed

lemma glibc_qsort_sorted: "sorted_wrt name_le (glibc_qsort boatCompareByName xs)"
proof (induction boatCompareByName xs rule: glibc_qsort.induct)
  case (1 xs)
  show ?case
  proof (cases "length xs \<le> 1")
    case True
    then have "xs = [] \<or> (\<exists>x. xs = [x])" by (cases xs) auto
    then show ?thesis by (subst glibc_qsort.simps) auto
  next
    case False
    with 1 show ?thesis by (subst glibc_qsort.simps) (simp add: sorted_merge_by_name)
  qed
qed

lemma glibc_qsort_stable:
  "filter (\<lambda>b. fold_key (name b) = k) (glibc_qsort boatCompareByName xs) =
     filter (\<lambda>b. fold_key (name b) = k) xs"
proof (induction boatCompareByName xs rule: glibc_qsort.induct)
  case (1 xs)
  show ?case
  proof (cases "length xs \<le> 1")
    case True
    then show ?thesis by (subst glibc_qsort.simps) simp
  next
    case False
    have "filter (\<lambda>b. fold_key (name b) = k) (take (length xs div 2) xs) @
          filter (\<lambda>b. fold_key (name b) = k) (drop (length xs div 2) xs) =
          filter (\<lambda>b. fold_key (name b) = k) xs"
      by (metis append_take_drop_id filter_append)
    with False 1 show ?thesis
      by (subst glibc_qsort.simps) (simp add: filter_merge_by_name glibc_qsort_sorted)
  qed
qed


lemma glibc_qsort_keeps_ties: "tie_order_kept xs (glibc_qsort boatCompareByName xs)"
  by (simp add: tie_order_kept_def list_all_iff same_name_key glibc_qsort_stable)

lemma glibc_qsort_small:
  "glibc_qsort cmp [] = []"
  "glibc_qsort cmp [x] = [x]"
  "glibc_qsort cmp [x, y] = merge_by cmp [x] [y]"
  "glibc_qsort cmp [x, y, z] = merge_by cmp [x] (merge_by cmp [y] [z])"
proof -
  show a: "glibc_qsort cmp [] = []" by (subst glibc_qsort.simps) simp
  show b: "glibc_qsort cmp [u] = [u]" for u by (subst glibc_qsort.simps) simp
  show c: "glibc_qsort cmp [u, v] = merge_by cmp [u] [v]" for u v
    by (subst glibc_qsort.simps) (simp add: b)
  have "length [x, y, z] div 2 = 1" by simp
  then show "glibc_qsort cmp [x, y, z] = merge_by cmp [x] (merge_by cmp [y] [z])"
    by (subst glibc_qsort.simps) (simp add: b c)
qed

lemma example_add:
  "addBoat glibc_qsort True \<lparr>boats = [ann1, big_brother]\<rparr> (Some ''ANN,20,slip,2,0.00'')
     = (Done, \<lparr>boats = [ann1, ann2, big_brother]\<rparr>)"
proof -
  have sc: "sscanf_boat (chop_newline (cstr ''ANN,20,slip,2,0.00'')) =
      Fields ''ANN'' 20 ''slip'' ''2'' (Finite False 0)"
    by (simp add: scan_simps round_double_0)
  have cb: "createBoat True ''ANN'' 20 (parseLocationType ''slip'') ''2'' (Finite False 0) = Some ann2"
    by (simp add: createBoat_True parseLocationType_def ann2_def atoi_def scan_simps)
  have c1: "boatCompareByName big_brother ann2 = 1"
    by (simp add: boatCompareByName_def big_brother_def ann2_def cic_simps)
  have c2: "boatCompareByName ann1 ann2 = 0"
    by (simp add: boatCompareByName_def ann1_def ann2_def cic_simps)
  have so: "glibc_qsort boatCompareByName [ann1, big_brother, ann2] = [ann1, ann2, big_brother]"
    by (simp add: glibc_qsort_small c1 c2)
  show ?thesis by (simp add: addBoat_Fields [OF sc] cb sortBoatsByName_def so)
qed

lemma example_remove:
  "removeBoat glibc_qsort \<lparr>boats = [ann1, ann2, big_brother]\<rparr> (Some ''ann'')
     = (Done, \<lparr>boats = [ann2, big_brother]\<rparr>)"
proof -
  have fm: "first_match (boats \<lparr>boats = [ann1, ann2, big_brother]\<rparr>) (chop_newline (cstr ''ann'')) 0"
    by (simp add: first_match_def no_match_def ann1_def chop_newline_def cstr_def cic_simps)
  have c: "boatCompareByName ann2 big_brother = - 1"
    by (simp add: boatCompareByName_def big_brother_def ann2_def cic_simps)
  have so: "glibc_qsort boatCompareByName [ann2, big_brother] = [ann2, big_brother]"
    by (simp add: glibc_qsort_small c)
  show ?thesis by (simp add: removeBoat_first_match [OF fm] sortBoatsByName_def so)
qed

lemma example_load_unsorted:
  "load_loop (\<lambda>k. True) 0 empty_manager unsorted_file = Some \<lparr>boats = [foo_boat, big_brother]\<rparr> \<and>
   loadFromCSV glibc_qsort (\<lambda>k. True) empty_manager (Some unsorted_file)
     = Some \<lparr>boats = [big_brother, foo_boat]\<rparr>"
proof -
  have s1: "sscanf_boat (cstr (''Foo,10,submarine,5,0.00'' @ [CHR 0x0A])) =
      Fields ''Foo'' 10 ''submarine'' ''5'' (Finite False 0)"
    by (simp add: scan_simps round_double_0)
  have s2: "sscanf_boat (cstr (''Big Brother,20,slip,27,1200.00'' @ [CHR 0x0A])) =
      Fields ''Big Brother'' 20 ''slip'' ''27'' (Finite False 1200)"
    by (simp add: scan_simps round_double_1200)
  have c1: "createBoat True ''Foo'' 10 (parseLocationType ''submarine'') ''5'' (Finite False 0)
      = Some foo_boat"
    by (simp add: createBoat_True parseLocationType_def atoi_def scan_simps foo_boat_def)
  have c2: "createBoat True ''Big Brother'' 20 (parseLocationType ''slip'') ''27'' (Finite False 1200)
      = Some big_brother"
    by (simp add: createBoat_True parseLocationType_def atoi_def scan_simps big_brother_def)
  have l1: "load_line True empty_manager (''Foo,10,submarine,5,0.00'' @ [CHR 0x0A])
      = Some \<lparr>boats = [foo_boat]\<rparr>"
    by (simp only: load_line_Fields [OF s1]) (simp add: c1 empty_manager_def)
  have l2: "load_line True \<lparr>boats = [foo_boat]\<rparr> (''Big Brother,20,slip,27,1200.00'' @ [CHR 0x0A])
      = Some \<lparr>boats = [foo_boat, big_brother]\<rparr>"
    by (simp only: load_line_Fields [OF s2]) (simp add: c2)
  have "load_loop (\<lambda>k. True) 0 empty_manager unsorted_file =
      (case load_line True empty_manager (''Foo,10,submarine,5,0.00'' @ [CHR 0x0A]) of
         None \<Rightarrow> None
       | Some m' \<Rightarrow> load_loop (\<lambda>k. True) (0 + 1) m'
           (''Big Brother,20,slip,27,1200.00'' @ CHR 0x0A # []))"
    unfolding unsorted_file_def by (rule load_loop_line) simp_all
  also have "\<dots> = load_loop (\<lambda>k. True) (0 + 1) \<lparr>boats = [foo_boat]\<rparr>
      (''Big Brother,20,slip,27,1200.00'' @ CHR 0x0A # [])"
    by (simp only: l1 option.case)
  also have "\<dots> = (case load_line True \<lparr>boats = [foo_boat]\<rparr>
                          (''Big Brother,20,slip,27,1200.00'' @ [CHR 0x0A]) of
         None \<Rightarrow> None
       | Some m' \<Rightarrow> load_loop (\<lambda>k. True) (0 + 1 + 1) m' [])"
    by (rule load_loop_line) simp_all
  also have "\<dots> = Some \<lparr>boats = [foo_boat, big_brother]\<rparr>"
    by (simp only: l2 option.case load_loop_Nil)
  finally have ll: "load_loop (\<lambda>k. True) 0 empty_manager unsorted_file
      = Some \<lparr>boats = [foo_boat, big_brother]\<rparr>" .
  have c: "boatCompareByName foo_boat big_brother = 1"
    by (simp add: boatCompareByName_def big_brother_def foo_boat_def cic_simps)
  have so: "glibc_qsort boatCompareByName [foo_boat, big_brother] = [big_brother, foo_boat]"
    by (simp add: glibc_qsort_small c)
  show ?thesis using ll by (simp add: loadFromCSV_def sortBoatsByName_def so)
qed

text \<open>
  C4. After a successful \<open>addBoat\<close> or \<open>removeBoat\<close> and after \<open>loadFromCSV\<close>, the store
  lists all its records (the old ones and the new one; the old ones but the removed one;
  the ones read) in non-decreasing case-insensitive lexicographic order of their names,
  and records whose names are equal ignoring case stand in the relative order they had
  in the array before it was sorted: the library's merge sort is stable.
\<close>

theorem mutations_sorted_stable:
  "(fst (addBoat glibc_qsort avail m line_in) = Done \<longrightarrow>
      sorted_wrt name_le (boats (snd (addBoat glibc_qsort avail m line_in))) \<and>
      (\<exists>b. mset (boats (snd (addBoat glibc_qsort avail m line_in))) = add_mset b (mset (boats m)) \<and>
           tie_order_kept (boats m @ [b]) (boats (snd (addBoat glibc_qsort avail m line_in))))) \<and>
   (fst (removeBoat glibc_qsort m name_in) = Done \<longrightarrow>
      sorted_wrt name_le (boats (snd (removeBoat glibc_qsort m name_in))) \<and>
      (\<exists>i. i < length (boats m) \<and>
           add_mset (boats m ! i) (mset (boats (snd (removeBoat glibc_qsort m name_in)))) = mset (boats m) \<and>
           tie_order_kept (take i (boats m) @ drop (Suc i) (boats m))
             (boats (snd (removeBoat glibc_qsort m name_in))))) \<and>
   (loadFromCSV glibc_qsort av m0 (Some inp) = Some m' \<longrightarrow>
      sorted_wrt name_le (boats m') \<and>
      (\<exists>m''. load_loop av 0 m0 inp = Some m'' \<and> mset (boats m') = mset (boats m'') \<and>
             tie_order_kept (boats m'') (boats m')))"
proof (intro conjI impI)
  assume "fst (addBoat glibc_qsort avail m line_in) = Done"
  from addBoat_Done [OF this] obtain b where
    b: "snd (addBoat glibc_qsort avail m line_in) =
          sortBoatsByName glibc_qsort (m\<lparr>boats := boats m @ [b]\<rparr>)" ..
  show "sorted_wrt name_le (boats (snd (addBoat glibc_qsort avail m line_in)))"
    unfolding b sortBoatsByName_boats by (simp add: glibc_qsort_sorted)
  have "mset (boats (snd (addBoat glibc_qsort avail m line_in))) = add_mset b (mset (boats m)) \<and>
        tie_order_kept (boats m @ [b]) (boats (snd (addBoat glibc_qsort avail m line_in)))"
    unfolding b sortBoatsByName_boats
    using glibc_qsort_keeps_ties [of "boats m @ [b]"] by (simp add: glibc_qsort_mset)
  then show "\<exists>b. mset (boats (snd (addBoat glibc_qsort avail m line_in))) = add_mset b (mset (boats m)) \<and>
           tie_order_kept (boats m @ [b]) (boats (snd (addBoat glibc_qsort avail m line_in)))" ..
next
  assume "fst (removeBoat glibc_qsort m name_in) = Done"
  from removeBoat_Done [OF this] obtain i where i: "i < length (boats m)"
    and r: "snd (removeBoat glibc_qsort m name_in) =
             sortBoatsByName glibc_qsort (m\<lparr>boats := take i (boats m) @ drop (Suc i) (boats m)\<rparr>)"
    by blast
  show "sorted_wrt name_le (boats (snd (removeBoat glibc_qsort m name_in)))"
    unfolding r sortBoatsByName_boats by (simp add: glibc_qsort_sorted)
  have "i < length (boats m) \<and>
        add_mset (boats m ! i) (mset (boats (snd (removeBoat glibc_qsort m name_in)))) = mset (boats m) \<and>
        tie_order_kept (take i (boats m) @ drop (Suc i) (boats m))
          (boats (snd (removeBoat glibc_qsort m name_in)))"
    unfolding r sortBoatsByName_boats
    using i mset_remove_nth [OF i] glibc_qsort_keeps_ties [of "take i (boats m) @ drop (Suc i) (boats m)"]
    by (simp add: glibc_qsort_mset)
  then show "\<exists>i. i < length (boats m) \<and>
           add_mset (boats m ! i) (mset (boats (snd (removeBoat glibc_qsort m name_in)))) = mset (boats m) \<and>
           tie_order_kept (take i (boats m) @ drop (Suc i) (boats m))
             (boats (snd (removeBoat glibc_qsort m name_in)))" ..
next
  assume l: "loadFromCSV glibc_qsort av m0 (Some inp) = Some m'"
  then obtain m'' where m'': "load_loop av 0 m0 inp = Some m''"
    and e: "m' = sortBoatsByName glibc_qsort m''"
    by (auto simp: loadFromCSV_def)
  show "sorted_wrt name_le (boats m')"
    unfolding e sortBoatsByName_boats by (simp add: glibc_qsort_sorted)
  have "load_loop av 0 m0 inp = Some m'' \<and> mset (boats m') = mset (boats m'') \<and>
        tie_order_kept (boats m'') (boats m')"
    unfolding e sortBoatsByName_boats
    using m'' glibc_qsort_keeps_ties [of "boats m''"] by (simp add: glibc_qsort_mset)
  then show "\<exists>m''. load_loop av 0 m0 inp = Some m'' \<and> mset (boats m') = mset (boats m'') \<and>
             tie_order_kept (boats m'') (boats m')" ..
qed

theorem mutations_sorted_stable_witness:
  "addBoat glibc_qsort True \<lparr>boats = [ann1, big_brother]\<rparr> (Some ''ANN,20,slip,2,0.00'')
     = (Done, \<lparr>boats = [ann1, ann2, big_brother]\<rparr>) \<and>
   sorted_wrt name_le [ann1, ann2, big_brother] \<and>
   removeBoat glibc_qsort \<lparr>boats = [ann1, ann2, big_brother]\<rparr> (Some ''ann'')
     = (Done, \<lparr>boats = [ann2, big_brother]\<rparr>) \<and>
   sorted_wrt name_le [ann2, big_brother] \<and>
   loadFromCSV glibc_qsort (\<lambda>k. True) empty_manager (Some unsorted_file)
     = Some \<lparr>boats = [big_brother, foo_boat]\<rparr> \<and>
   sorted_wrt name_le [big_brother, foo_boat]"
proof -
  note t1 = mutations_sorted_stable [of True "\<lparr>boats = [ann1, big_brother]\<rparr>"
      "Some ''ANN,20,slip,2,0.00''" "Some ''ann''"
      "\<lambda>k. True" empty_manager unsorted_file "\<lparr>boats = [big_brother, foo_boat]\<rparr>"]
  note t2 = mutations_sorted_stable [of True "\<lparr>boats = [ann1, ann2, big_brother]\<rparr>"
      "Some ''ANN,20,slip,2,0.00''" "Some ''ann''"
      "\<lambda>k. True" empty_manager unsorted_file "\<lparr>boats = [big_brother, foo_boat]\<rparr>"]
  note l = conjunct2 [OF example_load_unsorted]
  from t1 have "sorted_wrt name_le [ann1, ann2, big_brother]"
    unfolding example_add by simp
  moreover from t2 have "sorted_wrt name_le [ann2, big_brother]"
    unfolding example_remove by simp
  moreover from t1 l have "sorted_wrt name_le [big_brother, foo_boat]"
    by simp
  ultimately show ?thesis using example_add example_remove l by blast
qed

section \<open>Printed numbers are read back\<close>






























section \<open>Saving and loading again\<close>









































end
